theory Spec2Isabelle
  imports Main "HOL-Library.Word"
begin

section \<open>Data model of the command palette\<close>

text \<open>
  The \<^verbatim>\<open>type\<close> field of a \<^verbatim>\<open>Command\<close> is a union of six string literals.
\<close>

datatype CommandType =
    TCommand          \<comment> \<open>\<^verbatim>\<open>"command"\<close>\<close>
  | TCommandDynamic   \<comment> \<open>\<^verbatim>\<open>"command-dynamic"\<close>\<close>
  | TNote             \<comment> \<open>\<^verbatim>\<open>"note"\<close>\<close>
  | TNotebook         \<comment> \<open>\<^verbatim>\<open>"notebook"\<close>\<close>
  | TTag              \<comment> \<open>\<^verbatim>\<open>"tag"\<close>\<close>
  | TReminder         \<comment> \<open>\<^verbatim>\<open>"reminder"\<close>\<close>

text \<open>
  \<^verbatim>\<open>interface Command\<close>. The fields \<^verbatim>\<open>id\<close> and \<^verbatim>\<open>type\<close> carry a suffix because
  \<open>id\<close> is a constant of HOL. Identifiers, titles and group labels are only ever
  compared for equality, so they are plain strings; \<^verbatim>\<open>highlightedTitle?\<close> is optional
  (\<open>None\<close> is \<^verbatim>\<open>undefined\<close>).
\<close>

record Command =
  id_cmd :: string
  title :: string
  highlightedTitle :: "string option"
  type_cmd :: CommandType
  group :: string

subsection \<open>The persisted key-value store\<close>

text \<open>
  Modelled from the spec: the module \<^verbatim>\<open>utils/config\<close> (\<^verbatim>\<open>Config.get\<close>, \<^verbatim>\<open>Config.set\<close>)
  is imported by the dialog but is not part of the sources at hand. The spec describes
  it as a persistent key-value store with \<^verbatim>\<open>get(key, default) -> value\<close> and
  \<^verbatim>\<open>set(key, value) -> void\<close>, where an absent (or unreadable) key reads as the default.
  The only values the dialog stores are lists of commands.
\<close>

type_synonym Config = "string \<rightharpoonup> Command list"

definition Config_get :: "Config \<Rightarrow> string \<Rightarrow> Command list \<Rightarrow> Command list" where
  "Config_get cfg key dflt = (case cfg key of None \<Rightarrow> dflt | Some v \<Rightarrow> v)"

definition Config_set :: "Config \<Rightarrow> string \<Rightarrow> Command list \<Rightarrow> Config" where
  "Config_set cfg key v = cfg(key \<mapsto> v)"

subsection \<open>Array primitives of the host language\<close>

text \<open>
  \<^verbatim>\<open>Array.prototype.findIndex\<close>: the index of the first element satisfying the
  predicate, \<open>-1\<close> when there is none.
\<close>

fun findIndex :: "('a \<Rightarrow> bool) \<Rightarrow> 'a list \<Rightarrow> int" where
  "findIndex P [] = -1"
| "findIndex P (a # as) =
     (if P a then 0
      else (let r = findIndex P as in if r = -1 then -1 else r + 1))"

text \<open>
  \<^verbatim>\<open>arr.splice(index, 1)\<close> for an index that \<^verbatim>\<open>findIndex\<close> returned and that passed the
  test \<^verbatim>\<open>index > -1\<close>: the element at that position is taken out.
\<close>

definition splice1 :: "int \<Rightarrow> 'a list \<Rightarrow> 'a list" where
  "splice1 index as = take (nat index) as @ drop (Suc (nat index)) as"

text \<open>\<^verbatim>\<open>arr.slice(0, n)\<close> is \<open>take n\<close>; \<^verbatim>\<open>arr.unshift(a)\<close> is \<open>(#) a\<close>.\<close>

section \<open>The recency cache\<close>

definition recentKey :: string where
  "recentKey = ''commandPalette:recent''"

definition getRecentCommands :: "Config \<Rightarrow> Command list" where
  "getRecentCommands cfg = Config_get cfg recentKey []"

definition addRecentCommand :: "Command \<Rightarrow> Config \<Rightarrow> Config" where
  "addRecentCommand command cfg =
     (if type_cmd command = TCommandDynamic then cfg
      else
        (let commands = getRecentCommands cfg;
             index = findIndex (\<lambda>c. id_cmd c = id_cmd command) commands;
             commands = (if index > -1 then splice1 index commands else commands);
             commands = command\<lparr>highlightedTitle := None, group := ''recent''\<rparr> # commands;
             commands = (if length commands > 3 then take 3 commands else commands)
         in Config_set cfg recentKey commands))"

definition removeRecentCommand :: "string \<Rightarrow> Config \<Rightarrow> Config" where
  "removeRecentCommand i cfg =
     (let commands = getRecentCommands cfg;
          index = findIndex (\<lambda>c. id_cmd c = i) commands
      in if index > -1 then Config_set cfg recentKey (splice1 index commands) else cfg)"

subsection \<open>Histories of cache operations\<close>

datatype CacheOp = Add Command | Remove string

fun applyOp :: "Config \<Rightarrow> CacheOp \<Rightarrow> Config" where
  "applyOp cfg (Add command) = addRecentCommand command cfg"
| "applyOp cfg (Remove i) = removeRecentCommand i cfg"

text \<open>The store after a history of operations, oldest first, on a store with no keys.\<close>

definition runOps :: "CacheOp list \<Rightarrow> Config" where
  "runOps ops = foldl applyOp Map.empty ops"

definition cacheIds :: "CacheOp list \<Rightarrow> string list" where
  "cacheIds ops = map id_cmd (getRecentCommands (runOps ops))"

text \<open>
  An operation records the identifier \<open>i\<close> when it is an \<^verbatim>\<open>add\<close> of a command with that
  identifier that is not dynamic. \<open>age h i\<close> reads a history \<open>h\<close> given newest first and
  counts the operations performed since \<open>i\<close> was last recorded.
\<close>

fun records :: "CacheOp \<Rightarrow> string \<Rightarrow> bool" where
  "records (Add command) i = (type_cmd command \<noteq> TCommandDynamic \<and> id_cmd command = i)"
| "records (Remove j) i = False"

fun age :: "CacheOp list \<Rightarrow> string \<Rightarrow> nat option" where
  "age [] i = None"
| "age (op # h) i = (if records op i then Some 0 else map_option Suc (age h i))"

text \<open>
  A list of identifiers is most-recent-first for a history (given newest first) when
  each of them has been recorded and their ages strictly increase along the list.
\<close>

definition mostRecentFirst :: "CacheOp list \<Rightarrow> string list \<Rightarrow> bool" where
  "mostRecentFirst h ids =
     (None \<notin> set (map (age h) ids) \<and> sorted_wrt (<) (map the (map (age h) ids)))"

section \<open>Numbers, array reads and exceptions of the host language\<close>

text \<open>
  The cursor coordinates are \<^verbatim>\<open>number\<close>s. The dialog only ever computes them from
  integers with \<^verbatim>\<open>+\<close>, \<^verbatim>\<open>-\<close> and \<^verbatim>\<open>%\<close>, which yields an integer or, when the divisor of
  \<^verbatim>\<open>%\<close> is zero, \<^verbatim>\<open>NaN\<close>. The remainder takes the sign of the dividend.
\<close>

datatype number = Num int | NaN

fun js_add :: "number \<Rightarrow> number \<Rightarrow> number" where
  "js_add (Num a) (Num b) = Num (a + b)"
| "js_add _ _ = NaN"

fun js_sub :: "number \<Rightarrow> number \<Rightarrow> number" where
  "js_sub (Num a) (Num b) = Num (a - b)"
| "js_sub _ _ = NaN"

fun js_rem :: "number \<Rightarrow> number \<Rightarrow> number" where
  "js_rem (Num a) (Num b) = (if b = 0 then NaN else Num (sgn a * (\<bar>a\<bar> mod \<bar>b\<bar>)))"
| "js_rem _ _ = NaN"

text \<open>
  \<^verbatim>\<open>arr[n]\<close>: the element when \<open>n\<close> is an index of the array, \<^verbatim>\<open>undefined\<close> (\<open>None\<close>)
  otherwise, in particular for \<^verbatim>\<open>NaN\<close>.
\<close>

fun at_index :: "'a list \<Rightarrow> number \<Rightarrow> 'a option" where
  "at_index as (Num i) = (if 0 \<le> i \<and> i < int (length as) then Some (as ! nat i) else None)"
| "at_index as NaN = None"

text \<open>Reading a property of \<^verbatim>\<open>undefined\<close> throws a \<^verbatim>\<open>TypeError\<close>.\<close>

datatype error = TypeError

section \<open>The navigation cursor\<close>

text \<open>
  \<^verbatim>\<open>type Coords = Record<"x" | "y", number>\<close>: \<open>coord_y\<close> is the row in the flattened
  list, \<open>coord_x\<close> the column.
\<close>

record Coords =
  coord_x :: number
  coord_y :: number

definition moveSelectionDown :: "Coords \<Rightarrow> Command list \<Rightarrow> error + Coords" where
  "moveSelectionDown selected commands =
     (let currentCommand = at_index commands (coord_y selected);
          nextIndex = js_rem (js_add (coord_y selected) (Num 1)) (Num (int (length commands)));
          nextCommand = at_index commands nextIndex
      in case currentCommand of
           None \<Rightarrow> Inl TypeError
         | Some cur \<Rightarrow>
             if group cur = ''recent'' then
               (case nextCommand of
                  None \<Rightarrow> Inl TypeError
                | Some nxt \<Rightarrow>
                    if group nxt = ''recent''
                    then Inr \<lparr>coord_x = coord_x selected, coord_y = nextIndex\<rparr>
                    else Inr \<lparr>coord_x = Num 0, coord_y = nextIndex\<rparr>)
             else Inr \<lparr>coord_x = Num 0, coord_y = nextIndex\<rparr>)"

definition moveSelectionUp :: "Coords \<Rightarrow> Command list \<Rightarrow> error + Coords" where
  "moveSelectionUp selected commands =
     (let currentCommand = at_index commands (coord_y selected);
          nextIndex = js_rem (js_add (js_sub (coord_y selected) (Num 1))
                                     (Num (int (length commands))))
                             (Num (int (length commands)));
          nextCommand = at_index commands nextIndex
      in case currentCommand of
           None \<Rightarrow> Inl TypeError
         | Some cur \<Rightarrow>
             if group cur = ''recent'' then
               (case nextCommand of
                  None \<Rightarrow> Inl TypeError
                | Some nxt \<Rightarrow>
                    if group nxt = ''recent''
                    then Inr \<lparr>coord_x = coord_x selected, coord_y = nextIndex\<rparr>
                    else Inr \<lparr>coord_x = Num 0, coord_y = nextIndex\<rparr>)
             else Inr \<lparr>coord_x = Num 0, coord_y = nextIndex\<rparr>)"

definition moveSelectionRight :: "Coords \<Rightarrow> Command list \<Rightarrow> error + Coords" where
  "moveSelectionRight selected commands =
     (case at_index commands (coord_y selected) of
        None \<Rightarrow> Inl TypeError
      | Some currentCommand \<Rightarrow>
          if group currentCommand \<noteq> ''recent'' then Inr selected
          else (let nextIndex = js_rem (js_add (coord_x selected) (Num 1)) (Num 2)
                in Inr \<lparr>coord_x = nextIndex, coord_y = coord_y selected\<rparr>))"

definition moveSelectionLeft :: "Coords \<Rightarrow> Command list \<Rightarrow> error + Coords" where
  "moveSelectionLeft selected commands =
     (case at_index commands (coord_y selected) of
        None \<Rightarrow> Inl TypeError
      | Some currentCommand \<Rightarrow>
          if group currentCommand \<noteq> ''recent'' then Inr selected
          else (let nextIndex = js_rem (js_add (js_sub (coord_x selected) (Num 1)) (Num 2)) (Num 2)
                in Inr \<lparr>coord_x = nextIndex, coord_y = coord_y selected\<rparr>))"

section \<open>The command registry\<close>

text \<open>
  The registry \<^verbatim>\<open>COMMANDS\<close> is imported from \<^verbatim>\<open>./commands\<close> and is a parameter of the
  model. An entry is recorded with the values its fields resolve to: \<open>title_reg\<close> and
  \<open>group_reg\<close> hold the string, or what the function-valued field returns, with \<open>None\<close>
  for \<^verbatim>\<open>undefined\<close>; \<open>hidden\<close> is \<open>None\<close> when the entry has no \<^verbatim>\<open>hidden\<close> predicate and
  otherwise holds what the predicate returns; \<open>action\<close> is an opaque handle for the
  function bound to the entry.
\<close>

record RegistryCommand =
  id_reg :: string
  title_reg :: "string option"
  group_reg :: "string option"
  hidden :: "bool option"
  dynamic :: bool
  action :: string

definition resolveStep :: "Command list \<Rightarrow> RegistryCommand \<Rightarrow> Command list" where
  "resolveStep acc command =
     (if find (\<lambda>c. id_cmd c = id_reg command) acc \<noteq> None then acc
      else
        (let isHidden = (case hidden command of Some h \<Rightarrow> h | None \<Rightarrow> False) in
         case (group_reg command, title_reg command) of
           (Some grp, Some ttl) \<Rightarrow>
             if isHidden then acc
             else acc @ [\<lparr>id_cmd = id_reg command, title = ttl, highlightedTitle = None,
                          type_cmd = (if dynamic command then TCommandDynamic else TCommand),
                          group = grp\<rparr>]
         | _ \<Rightarrow> acc))"

definition resolveCommands :: "RegistryCommand list \<Rightarrow> Command list" where
  "resolveCommands COMMANDS = foldl resolveStep [] COMMANDS"

definition getDefaultCommands :: "RegistryCommand list \<Rightarrow> Config \<Rightarrow> Command list" where
  "getDefaultCommands COMMANDS cfg = getRecentCommands cfg @ resolveCommands COMMANDS"

text \<open>\<^verbatim>\<open>CommandActionMap\<close>: a later entry with the same identifier overwrites an earlier one.\<close>

definition CommandActionMap :: "RegistryCommand list \<Rightarrow> (string \<rightharpoonup> string)" where
  "CommandActionMap COMMANDS = foldl (\<lambda>acc command. acc(id_reg command \<mapsto> action command)) Map.empty COMMANDS"

text \<open>What invoking a resolved action does, as far as the dialog determines it.\<close>

datatype Effect =
    RunAction string string    \<comment> \<open>a registry action (by handle) called with an argument\<close>
  | OpenSession string         \<comment> \<open>\<^verbatim>\<open>useEditorStore.getState().openSession(noteId)\<close>\<close>
  | Navigate string            \<comment> \<open>\<^verbatim>\<open>navigate(path)\<close>\<close>
  | HashNavigate string        \<comment> \<open>\<^verbatim>\<open>hashNavigate(path)\<close>\<close>

definition getCommandAction :: "RegistryCommand list \<Rightarrow> string \<Rightarrow> CommandType \<Rightarrow> (string \<Rightarrow> Effect) option" where
  "getCommandAction COMMANDS i t =
     (case t of
        TCommand \<Rightarrow> map_option RunAction (CommandActionMap COMMANDS i)
      | TCommandDynamic \<Rightarrow> map_option RunAction (CommandActionMap COMMANDS i)
      | TNote \<Rightarrow> Some OpenSession
      | TNotebook \<Rightarrow> Some (\<lambda>notebookId. Navigate (''/notebooks/'' @ notebookId))
      | TTag \<Rightarrow> Some (\<lambda>tagId. Navigate (''/tags/'' @ tagId))
      | TReminder \<Rightarrow> Some (\<lambda>reminderId. HashNavigate (''/reminders/'' @ reminderId @ ''/edit'')))"

section \<open>The dialog and its key handler\<close>

text \<open>
  The state the key handler reads and writes. Arrays are objects: \<open>arrays\<close> maps an
  address to the array stored there and \<open>next_ref\<close> is the first address not yet
  allocated. \<open>commands_ref\<close> is the React state \<^verbatim>\<open>commands\<close> (the address of the
  flattened list), \<open>selected_st\<close> the React state \<^verbatim>\<open>selected\<close>, \<open>config\<close> the persisted
  store, \<open>closed\<close> whether \<^verbatim>\<open>props.onClose\<close> has been called, and \<open>effects\<close> the actions
  invoked so far, oldest first.
\<close>

record Dialog =
  arrays :: "nat \<Rightarrow> Command list"
  next_ref :: nat
  commands_ref :: nat
  selected_st :: Coords
  config :: Config
  closed :: bool
  effects :: "Effect list"

text \<open>\<^verbatim>\<open>arr.filter(p)\<close> allocates a new array and leaves \<^verbatim>\<open>arr\<close> as it is.\<close>

definition array_filter :: "(Command \<Rightarrow> bool) \<Rightarrow> nat \<Rightarrow> Dialog \<Rightarrow> nat \<times> Dialog" where
  "array_filter p r st =
     (next_ref st,
      st\<lparr>arrays := (arrays st)(next_ref st := filter p (arrays st r)),
         next_ref := Suc (next_ref st)\<rparr>)"

datatype Key = Enter | ArrowDown | ArrowUp | ArrowRight | ArrowLeft | OtherKey

definition onKeyDown :: "RegistryCommand list \<Rightarrow> Key \<Rightarrow> Dialog \<Rightarrow> error + Dialog" where
  "onKeyDown COMMANDS key st =
     (let commands = arrays st (commands_ref st);
          selected = selected_st st
      in case key of
           Enter \<Rightarrow>
             (case at_index commands (coord_y selected) of
                None \<Rightarrow> Inr st
              | Some command \<Rightarrow>
                  if coord_x selected = Num 1 then
                    (let st = st\<lparr>selected_st := \<lparr>coord_x = Num 0, coord_y = Num 0\<rparr>\<rparr>;
                         st = st\<lparr>config := removeRecentCommand (id_cmd command) (config st)\<rparr>;
                         (r, st) = array_filter (\<lambda>c. id_cmd c \<noteq> id_cmd command) (commands_ref st) st
                     in Inr (st\<lparr>commands_ref := r\<rparr>))
                  else
                    (let st = (case getCommandAction COMMANDS (id_cmd command) (type_cmd command) of
                                 None \<Rightarrow> st
                               | Some act \<Rightarrow> st\<lparr>effects := effects st @ [act (id_cmd command)]\<rparr>);
                         st = st\<lparr>config := addRecentCommand command (config st)\<rparr>;
                         st = st\<lparr>closed := True\<rparr>
                     in Inr (st\<lparr>selected_st := \<lparr>coord_x = Num 0, coord_y = Num 0\<rparr>\<rparr>)))
         | ArrowDown \<Rightarrow>
             (case moveSelectionDown selected commands of
                Inl e \<Rightarrow> Inl e | Inr s \<Rightarrow> Inr (st\<lparr>selected_st := s\<rparr>))
         | ArrowUp \<Rightarrow>
             (case moveSelectionUp selected commands of
                Inl e \<Rightarrow> Inl e | Inr s \<Rightarrow> Inr (st\<lparr>selected_st := s\<rparr>))
         | ArrowRight \<Rightarrow>
             (case moveSelectionRight selected commands of
                Inl e \<Rightarrow> Inl e | Inr s \<Rightarrow> Inr (st\<lparr>selected_st := s\<rparr>))
         | ArrowLeft \<Rightarrow>
             (case moveSelectionLeft selected commands of
                Inl e \<Rightarrow> Inl e | Inr s \<Rightarrow> Inr (st\<lparr>selected_st := s\<rparr>))
         | OtherKey \<Rightarrow> Inr st)"

section \<open>Grouping and sorting\<close>

text \<open>An element \<^verbatim>\<open>{ group, count }\<close> of \<^verbatim>\<open>GroupedCommands\<close>.\<close>

record GroupCount =
  group_gc :: string
  count :: nat

type_synonym GroupedCommands = "GroupCount list"

text \<open>\<^verbatim>\<open>item.count++\<close> on the item that \<^verbatim>\<open>acc.find\<close> returned: the first one with the label.\<close>

fun incrementFound :: "string \<Rightarrow> GroupedCommands \<Rightarrow> GroupedCommands" where
  "incrementFound g [] = []"
| "incrementFound g (item # acc) =
     (if group_gc item = g then item\<lparr>count := count item + 1\<rparr> # acc
      else item # incrementFound g acc)"

definition groupedStep :: "GroupedCommands \<Rightarrow> Command \<Rightarrow> GroupedCommands" where
  "groupedStep acc command =
     (case find (\<lambda>c. group_gc c = group command) acc of
        Some item \<Rightarrow> incrementFound (group command) acc
      | None \<Rightarrow> acc @ [\<lparr>group_gc = group command, count = 1\<rparr>])"

definition grouped :: "Command list \<Rightarrow> GroupedCommands" where
  "grouped commands = foldl groupedStep [] commands"

text \<open>
  \<^verbatim>\<open>sortedWrtGroups.findIndex((c) => c[0].group === group)\<close>: the callback reads
  \<^verbatim>\<open>c[0].group\<close> and throws when a bucket is empty.
\<close>

fun findIndexGroup :: "string \<Rightarrow> Command list list \<Rightarrow> error + int" where
  "findIndexGroup g [] = Inr (-1)"
| "findIndexGroup g (c # cs) =
     (case c of
        [] \<Rightarrow> Inl TypeError
      | c0 # _ \<Rightarrow>
          if group c0 = g then Inr 0
          else (case findIndexGroup g cs of
                  Inl e \<Rightarrow> Inl e
                | Inr r \<Rightarrow> Inr (if r = -1 then -1 else r + 1)))"

text \<open>One iteration of the loop of \<^verbatim>\<open>sortCommands\<close> over \<open>(recent, sortedWrtGroups)\<close>.\<close>

definition sortStep :: "Command list \<times> Command list list \<Rightarrow> Command
    \<Rightarrow> error + Command list \<times> Command list list" where
  "sortStep s command =
     (case s of (recent, sortedWrtGroups) \<Rightarrow>
        if group command = ''recent'' then Inr (recent @ [command], sortedWrtGroups)
        else
          (case findIndexGroup (group command) sortedWrtGroups of
             Inl e \<Rightarrow> Inl e
           | Inr index \<Rightarrow>
               if index = -1 then Inr (recent, sortedWrtGroups @ [[command]])
               else Inr (recent,
                         sortedWrtGroups[nat index := sortedWrtGroups ! nat index @ [command]])))"

fun sortLoop :: "Command list \<times> Command list list \<Rightarrow> Command list
    \<Rightarrow> error + Command list \<times> Command list list" where
  "sortLoop s [] = Inr s"
| "sortLoop s (command # commands) =
     (case sortStep s command of Inl e \<Rightarrow> Inl e | Inr s' \<Rightarrow> sortLoop s' commands)"

definition sortCommands :: "Command list \<Rightarrow> error + Command list" where
  "sortCommands commands =
     (case sortLoop ([], []) commands of
        Inl e \<Rightarrow> Inl e
      | Inr (recent, sortedWrtGroups) \<Rightarrow> Inr (recent @ concat sortedWrtGroups))"

subsection \<open>Invariant of the sorting loop\<close>

text \<open>
  A bucket of \<^verbatim>\<open>sortedWrtGroups\<close> is never empty; all its commands carry the group of
  its first command, which is the label of the bucket and is not \<^verbatim>\<open>"recent"\<close>.
\<close>

definition bucketLabel :: "Command list \<Rightarrow> string" where
  "bucketLabel b = (case b of [] \<Rightarrow> [] | c0 # _ \<Rightarrow> group c0)"

definition uniformBucket :: "Command list \<Rightarrow> bool" where
  "uniformBucket b =
     (case b of [] \<Rightarrow> False
      | c0 # cs \<Rightarrow> group c0 \<noteq> ''recent'' \<and> list_all (\<lambda>c. group c = group c0) cs)"

definition sortInv :: "Command list \<times> Command list list \<Rightarrow> bool" where
  "sortInv s =
     (case s of (recent, sortedWrtGroups) \<Rightarrow>
        list_all (\<lambda>c. group c = ''recent'') recent
        \<and> list_all uniformBucket sortedWrtGroups
        \<and> distinct (map bucketLabel sortedWrtGroups))"

text \<open>The summary that the loop state stands for: one pair per non-empty part.\<close>

definition stateSummary :: "Command list \<times> Command list list \<Rightarrow> GroupedCommands" where
  "stateSummary s =
     (case s of (recent, sortedWrtGroups) \<Rightarrow>
        (if recent = [] then [] else [\<lparr>group_gc = ''recent'', count = length recent\<rparr>])
        @ map (\<lambda>b. \<lparr>group_gc = bucketLabel b, count = length b\<rparr>) sortedWrtGroups)"

subsection \<open>The group summary as the spec words it\<close>

text \<open>
  Replaying a summary writes each label as many times as its count says; the
  run-length encoding of a list of labels has one pair per maximal run of equal labels.
\<close>

definition spec_replay :: "GroupedCommands \<Rightarrow> string list" where
  "spec_replay summary = concat (map (\<lambda>p. replicate (count p) (group_gc p)) summary)"

fun spec_runLengths :: "string list \<Rightarrow> GroupedCommands" where
  "spec_runLengths [] = []"
| "spec_runLengths (g # gs) =
     (case spec_runLengths gs of
        [] \<Rightarrow> [\<lparr>group_gc = g, count = 1\<rparr>]
      | p # ps \<Rightarrow>
          if group_gc p = g then \<lparr>group_gc = g, count = Suc (count p)\<rparr> # ps
          else \<lparr>group_gc = g, count = 1\<rparr> # p # ps)"

section \<open>Query classification and command search\<close>

text \<open>
  A query is a string of the host language: a sequence of 16-bit code units.
  \<^verbatim>\<open>trim\<close> removes the code units of \<^verbatim>\<open>WhiteSpace\<close> and \<^verbatim>\<open>LineTerminator\<close> from both ends.
\<close>

type_synonym jsstring = "16 word list"

definition isWhiteSpace :: "16 word \<Rightarrow> bool" where
  "isWhiteSpace c =
     (c \<in> set [0x0009, 0x000A, 0x000B, 0x000C, 0x000D, 0x0020, 0x00A0, 0x1680,
               0x2000, 0x2001, 0x2002, 0x2003, 0x2004, 0x2005, 0x2006, 0x2007,
               0x2008, 0x2009, 0x200A, 0x2028, 0x2029, 0x202F, 0x205F, 0x3000, 0xFEFF])"

definition trim :: "jsstring \<Rightarrow> jsstring" where
  "trim s = rev (dropWhile isWhiteSpace (rev (dropWhile isWhiteSpace s)))"

text \<open>\<^verbatim>\<open>query.startsWith(">")\<close>; the code unit of \<^verbatim>\<open>>\<close> is \<open>0x3E\<close>.\<close>

definition isCommandMode :: "jsstring \<Rightarrow> bool" where
  "isCommandMode query = (case query of [] \<Rightarrow> False | c # _ \<Rightarrow> c = 0x3E)"

text \<open>\<^verbatim>\<open>query.substring(1)\<close> is \<open>drop 1 query\<close>.\<close>

definition prepareQuery :: "jsstring \<Rightarrow> jsstring" where
  "prepareQuery query = (if isCommandMode query then trim (drop 1 query) else trim query)"

text \<open>
  Modelled from the spec: \<^verbatim>\<open>fuzzy\<close> is imported from the package \<^verbatim>\<open>@notesnook/core\<close> and is
  not part of the sources at hand. The spec says that an empty prepared query matches
  every candidate with uniform quality, preserving input order; for a query that is not
  empty the candidates that match are returned by descending match quality, which is
  left to the parameter \<open>ranker\<close>.
\<close>

definition fuzzy :: "(jsstring \<Rightarrow> Command list \<Rightarrow> Command list) \<Rightarrow> jsstring \<Rightarrow> Command list \<Rightarrow> Command list" where
  "fuzzy ranker query items = (if query = [] then items else ranker query items)"

definition commandSearch :: "(jsstring \<Rightarrow> Command list \<Rightarrow> Command list) \<Rightarrow> RegistryCommand list
    \<Rightarrow> Config \<Rightarrow> jsstring \<Rightarrow> Command list" where
  "commandSearch ranker COMMANDS cfg query = fuzzy ranker query (getDefaultCommands COMMANDS cfg)"

subsection \<open>Registry resolution as the spec words it\<close>

text \<open>
  An entry is retained when its visibility predicate does not say hidden and its group
  and title resolve to a value; a retained entry becomes a \<^verbatim>\<open>Command\<close>; of the entries
  sharing an identifier the first occurrence wins.
\<close>

definition spec_retained :: "RegistryCommand \<Rightarrow> bool" where
  "spec_retained e = (hidden e \<noteq> Some True \<and> group_reg e \<noteq> None \<and> title_reg e \<noteq> None)"

definition spec_toCommand :: "RegistryCommand \<Rightarrow> Command" where
  "spec_toCommand e =
     \<lparr>id_cmd = id_reg e, title = the (title_reg e), highlightedTitle = None,
      type_cmd = (if dynamic e then TCommandDynamic else TCommand),
      group = the (group_reg e)\<rparr>"

fun spec_dedupById :: "string list \<Rightarrow> RegistryCommand list \<Rightarrow> RegistryCommand list" where
  "spec_dedupById seen [] = []"
| "spec_dedupById seen (e # es) =
     (if id_reg e \<in> set seen then spec_dedupById seen es
      else e # spec_dedupById (id_reg e # seen) es)"

text \<open>Stripping exactly one leading sentinel, if there is one.\<close>

definition spec_stripSentinel :: "jsstring \<Rightarrow> jsstring" where
  "spec_stripSentinel raw = (case raw of [] \<Rightarrow> [] | c # rest \<Rightarrow> if c = 0x3E then rest else raw)"

section \<open>Example data\<close>

text \<open>The flattened list of the spec's navigation scenario: two recent rows and a note.\<close>

definition exampleCommands :: "Command list" where
  "exampleCommands =
     [\<lparr>id_cmd = ''a'', title = ''A'', highlightedTitle = None, type_cmd = TNote, group = ''recent''\<rparr>,
      \<lparr>id_cmd = ''b'', title = ''B'', highlightedTitle = None, type_cmd = TTag, group = ''recent''\<rparr>,
      \<lparr>id_cmd = ''c'', title = ''C'', highlightedTitle = None, type_cmd = TNote, group = ''notes''\<rparr>]"

text \<open>
  A registry of two commands, and the palette as it opens in command mode when the
  command \<^verbatim>\<open>sync\<close> has been used before: the list is what \<^verbatim>\<open>getDefaultCommands\<close> returns, the
  cached entry followed by both registry commands, and the cursor is on the remove
  button (column 1) of the cached entry in row 0.
\<close>

definition twinRegistry :: "RegistryCommand list" where
  "twinRegistry =
     [\<lparr>id_reg = ''theme'', title_reg = Some ''Toggle theme'', group_reg = Some ''general'',
       hidden = None, dynamic = False, action = ''toggleTheme''\<rparr>,
      \<lparr>id_reg = ''sync'', title_reg = Some ''Sync'', group_reg = Some ''general'',
       hidden = None, dynamic = False, action = ''sync''\<rparr>]"

definition twinCommands :: "Command list" where
  "twinCommands =
     [\<lparr>id_cmd = ''sync'', title = ''Sync'', highlightedTitle = None, type_cmd = TCommand,
       group = ''recent''\<rparr>,
      \<lparr>id_cmd = ''theme'', title = ''Toggle theme'', highlightedTitle = None, type_cmd = TCommand,
       group = ''general''\<rparr>,
      \<lparr>id_cmd = ''sync'', title = ''Sync'', highlightedTitle = None, type_cmd = TCommand,
       group = ''general''\<rparr>]"

definition twinDialog :: Dialog where
  "twinDialog =
     \<lparr>arrays = (\<lambda>_. [])(0 := twinCommands), next_ref = 1, commands_ref = 0,
      selected_st = \<lparr>coord_x = Num 1, coord_y = Num 0\<rparr>,
      config = [recentKey \<mapsto> take 1 twinCommands],
      closed = False, effects = []\<rparr>"

text \<open>A dialog whose flattened list is empty, as after a query without results.\<close>

definition emptyDialog :: Dialog where
  "emptyDialog =
     \<lparr>arrays = (\<lambda>_. []), next_ref = 1, commands_ref = 0,
      selected_st = \<lparr>coord_x = Num 0, coord_y = Num 0\<rparr>,
      config = Map.empty, closed = False, effects = []\<rparr>"

text \<open>A registry of five visible entries and one hidden entry.\<close>

definition exampleRegistry :: "RegistryCommand list" where
  "exampleRegistry =
     [\<lparr>id_reg = ''theme'', title_reg = Some ''Toggle theme'', group_reg = Some ''general'',
       hidden = None, dynamic = False, action = ''toggleTheme''\<rparr>,
      \<lparr>id_reg = ''sync'', title_reg = Some ''Sync'', group_reg = Some ''general'',
       hidden = Some False, dynamic = False, action = ''sync''\<rparr>,
      \<lparr>id_reg = ''pin'', title_reg = Some ''Pin note'', group_reg = Some ''note'',
       hidden = Some True, dynamic = True, action = ''pin''\<rparr>,
      \<lparr>id_reg = ''new-note'', title_reg = Some ''New note'', group_reg = Some ''create'',
       hidden = None, dynamic = False, action = ''newNote''\<rparr>,
      \<lparr>id_reg = ''new-tag'', title_reg = Some ''New tag'', group_reg = Some ''create'',
       hidden = None, dynamic = False, action = ''newTag''\<rparr>,
      \<lparr>id_reg = ''settings'', title_reg = Some ''Settings'', group_reg = Some ''navigate'',
       hidden = None, dynamic = False, action = ''settings''\<rparr>]"

section \<open>Properties of the recency cache\<close>

lemma findIndex_ge: "- 1 \<le> findIndex P as"
  by (induction as) (auto simp: Let_def)

lemma splice1_findIndex_ids:
  "map id_cmd (if findIndex (\<lambda>c. id_cmd c = i) cs > -1
               then splice1 (findIndex (\<lambda>c. id_cmd c = i) cs) cs else cs)
   = remove1 i (map id_cmd cs)"
proof (induction cs)
  case Nil
  then show ?case by simp
next
  case (Cons c cs)
  have ge: "- 1 \<le> findIndex (\<lambda>c. id_cmd c = i) cs" by (rule findIndex_ge)
  show ?case
  proof (cases "id_cmd c = i")
    case True
    then show ?thesis by (simp add: splice1_def)
  next
    case False
    show ?thesis
    proof (cases "findIndex (\<lambda>c. id_cmd c = i) cs = -1")
      case True
      with False Cons show ?thesis by (simp add: Let_def)
    next
      case neq: False
      with ge have pos: "0 \<le> findIndex (\<lambda>c. id_cmd c = i) cs" by linarith
      then have "nat (findIndex (\<lambda>c. id_cmd c = i) cs + 1)
                 = Suc (nat (findIndex (\<lambda>c. id_cmd c = i) cs))" by simp
      with False neq pos Cons show ?thesis
        by (simp add: Let_def splice1_def)
    qed
  qed
qed

lemma ids_add:
  "map id_cmd (getRecentCommands (addRecentCommand c cfg)) =
     (if type_cmd c = TCommandDynamic then map id_cmd (getRecentCommands cfg)
      else take 3 (id_cmd c # remove1 (id_cmd c) (map id_cmd (getRecentCommands cfg))))"
proof (cases "type_cmd c = TCommandDynamic")
  case True
  then show ?thesis by (simp add: addRecentCommand_def)
next
  case False
  have "map id_cmd (getRecentCommands (addRecentCommand c cfg)) =
        take 3 (id_cmd c # map id_cmd
          (if findIndex (\<lambda>d. id_cmd d = id_cmd c) (getRecentCommands cfg) > -1
           then splice1 (findIndex (\<lambda>d. id_cmd d = id_cmd c) (getRecentCommands cfg)) (getRecentCommands cfg)
           else getRecentCommands cfg))"
    using False
    by (simp add: addRecentCommand_def Let_def getRecentCommands_def Config_get_def Config_set_def take_map)
  with False show ?thesis by (simp only: splice1_findIndex_ids if_False)
qed

lemma ids_remove:
  "map id_cmd (getRecentCommands (removeRecentCommand i cfg)) =
     remove1 i (map id_cmd (getRecentCommands cfg))"
proof -
  have "map id_cmd (getRecentCommands (removeRecentCommand i cfg)) =
        map id_cmd
          (if findIndex (\<lambda>d. id_cmd d = i) (getRecentCommands cfg) > -1
           then splice1 (findIndex (\<lambda>d. id_cmd d = i) (getRecentCommands cfg)) (getRecentCommands cfg)
           else getRecentCommands cfg)"
    by (simp add: removeRecentCommand_def Let_def getRecentCommands_def Config_get_def Config_set_def)
  then show ?thesis by (simp only: splice1_findIndex_ids)
qed



lemma mrf_Nil: "mostRecentFirst h []" by (simp add: mostRecentFirst_def)

lemma mrf_alt: "mostRecentFirst h ids = ((\<forall>i \<in> set ids. age h i \<noteq> None) \<and> sorted_wrt (\<lambda>a b. the (age h a) < the (age h b)) ids)"
  by (force simp: mostRecentFirst_def sorted_wrt_map)

lemma mrf_remove1: "mostRecentFirst h ids \<Longrightarrow> mostRecentFirst h (remove1 i ids)"
  unfolding mrf_alt
  by (induction ids) (auto dest: notin_set_remove1)

lemma mrf_take: "mostRecentFirst h ids \<Longrightarrow> mostRecentFirst h (take n ids)"
  unfolding mrf_alt by (auto dest: in_set_takeD)

lemma mrf_older:
  assumes "mostRecentFirst h ids" "\<forall>i \<in> set ids. \<not> records op i"
  shows "mostRecentFirst (op # h) ids"
proof -
  have ages: "\<forall>i \<in> set ids. age (op # h) i = Some (Suc (the (age h i)))"
    using assms unfolding mrf_alt by auto
  have "sorted_wrt (\<lambda>a b. the (age (op # h) a) < the (age (op # h) b)) ids"
  proof (rule sorted_wrt_mono_rel[of ids "\<lambda>a b. the (age h a) < the (age h b)"])
    fix a b assume "a \<in> set ids" "b \<in> set ids" "the (age h a) < the (age h b)"
    with ages show "the (age (op # h) a) < the (age (op # h) b)"
      by (simp del: age.simps)
  next
    show "sorted_wrt (\<lambda>a b. the (age h a) < the (age h b)) ids"
      using assms(1) unfolding mrf_alt by simp
  qed
  with ages show ?thesis unfolding mrf_alt by simp
qed

lemma mrf_front:
  assumes "mostRecentFirst h ids" "records op i" "\<forall>j \<in> set ids. \<not> records op j"
  shows "mostRecentFirst (op # h) (i # ids)"
proof -
  from assms(1,3) have "mostRecentFirst (op # h) ids" by (rule mrf_older)
  moreover have "age (op # h) i = Some 0" using assms(2) by simp
  moreover have "\<forall>j \<in> set ids. 0 < the (age (op # h) j)"
    using assms(1,3) unfolding mrf_alt by auto
  ultimately show ?thesis unfolding mrf_alt by simp
qed


lemma cacheIds_Nil: "cacheIds [] = []"
  by (simp add: cacheIds_def runOps_def getRecentCommands_def Config_get_def)

lemma cacheIds_snoc:
  "cacheIds (ops @ [op]) =
     (case op of
        Add c \<Rightarrow> (if type_cmd c = TCommandDynamic then cacheIds ops
                  else take 3 (id_cmd c # remove1 (id_cmd c) (cacheIds ops)))
      | Remove i \<Rightarrow> remove1 i (cacheIds ops))"
  by (cases op) (simp_all add: cacheIds_def runOps_def ids_add ids_remove)

lemma cacheInv_all:
  "length (cacheIds ops) \<le> 3 \<and> distinct (cacheIds ops) \<and> mostRecentFirst (rev ops) (cacheIds ops)"
proof (induction ops rule: rev_induct)
  case Nil
  show ?case by (simp add: cacheIds_Nil mrf_Nil)
next
  case (snoc op ops)
  then have len: "length (cacheIds ops) \<le> 3" and dist: "distinct (cacheIds ops)"
    and m: "mostRecentFirst (rev ops) (cacheIds ops)" by simp_all
  show ?case
  proof (cases op)
    case (Remove i)
    have "mostRecentFirst (op # rev ops) (remove1 i (cacheIds ops))"
      using m Remove by (intro mrf_older mrf_remove1) simp_all
    moreover have "length (remove1 i (cacheIds ops)) \<le> 3"
      using len by (simp add: length_remove1 le_diff_conv)
    ultimately show ?thesis using dist Remove
      by (simp add: cacheIds_snoc)
  next
    case (Add c)
    show ?thesis
    proof (cases "type_cmd c = TCommandDynamic")
      case True
      have "mostRecentFirst (op # rev ops) (cacheIds ops)"
        using m Add True by (intro mrf_older) simp_all
      with len dist Add True show ?thesis
        by (simp add: cacheIds_snoc)
    next
      case False
      let ?r = "remove1 (id_cmd c) (cacheIds ops)"
      have notin: "id_cmd c \<notin> set ?r" using dist by simp
      have "mostRecentFirst (rev ops) ?r" using m by (rule mrf_remove1)
      then have "mostRecentFirst (op # rev ops) (id_cmd c # ?r)"
        using Add False notin by (intro mrf_front) auto
      then have "mostRecentFirst (op # rev ops) (take 3 (id_cmd c # ?r))" by (rule mrf_take)
      moreover have "distinct (take 3 (id_cmd c # ?r))"
        using dist notin by (intro distinct_take) simp
      ultimately show ?thesis using Add False
        by (simp add: cacheIds_snoc)
    qed
  qed
qed

lemma move_to_front:
  assumes "type_cmd c \<noteq> TCommandDynamic" "id_cmd c \<in> set (cacheIds ops)"
  shows "cacheIds (ops @ [Add c]) = id_cmd c # remove1 (id_cmd c) (cacheIds ops)"
proof -
  have "length (cacheIds ops) \<le> 3" using cacheInv_all[of ops] by simp
  moreover have "length (remove1 (id_cmd c) (cacheIds ops)) = length (cacheIds ops) - 1"
    using assms(2) by (simp add: length_remove1)
  moreover have "length (cacheIds ops) > 0" using assms(2) by (cases "cacheIds ops") auto
  ultimately have "length (id_cmd c # remove1 (id_cmd c) (cacheIds ops)) \<le> 3" by simp
  with assms(1) show ?thesis by (simp add: cacheIds_snoc)
qed


text \<open>
  Claim C8. Adding a command whose type is \<^verbatim>\<open>command-dynamic\<close> leaves the persisted
  store exactly as it was.
\<close>

theorem addRecentCommand_dynamic_noop:
  "type_cmd command = TCommandDynamic \<Longrightarrow> addRecentCommand command cfg = cfg"
  by (simp add: addRecentCommand_def)

theorem addRecentCommand_dynamic_noop_witness:
  "type_cmd \<lparr>id_cmd = ''sync'', title = ''Sync'', highlightedTitle = None,
             type_cmd = TCommandDynamic, group = ''general''\<rparr> = TCommandDynamic
   \<and> addRecentCommand \<lparr>id_cmd = ''sync'', title = ''Sync'', highlightedTitle = None,
                        type_cmd = TCommandDynamic, group = ''general''\<rparr>
        (runOps [Add \<lparr>id_cmd = ''x'', title = ''T'', highlightedTitle = None,
                      type_cmd = TNote, group = ''notes''\<rparr>])
     = runOps [Add \<lparr>id_cmd = ''x'', title = ''T'', highlightedTitle = None,
                    type_cmd = TNote, group = ''notes''\<rparr>]"
  using addRecentCommand_dynamic_noop
    [of "\<lparr>id_cmd = ''sync'', title = ''Sync'', highlightedTitle = None,
           type_cmd = TCommandDynamic, group = ''general''\<rparr>"
        "runOps [Add \<lparr>id_cmd = ''x'', title = ''T'', highlightedTitle = None,
                      type_cmd = TNote, group = ''notes''\<rparr>]"]
  by simp

text \<open>
  Claim C1. After any history of \<^verbatim>\<open>add\<close> and \<^verbatim>\<open>remove\<close> calls on an empty store, the
  persisted list has at most three entries, no two of them share an identifier, and
  the identifiers are ordered most-recent-first. Adding a command that is not dynamic
  and whose identifier is already listed puts that identifier in front and leaves the
  other identifiers in their order, without a duplicate.
\<close>

theorem recency_cache_invariant:
  "length (getRecentCommands (runOps ops)) \<le> 3
   \<and> distinct (cacheIds ops)
   \<and> mostRecentFirst (rev ops) (cacheIds ops)
   \<and> (type_cmd c \<noteq> TCommandDynamic \<and> id_cmd c \<in> set (cacheIds ops)
        \<longrightarrow> cacheIds (ops @ [Add c]) = id_cmd c # remove1 (id_cmd c) (cacheIds ops))"
proof -
  have "length (getRecentCommands (runOps ops)) = length (cacheIds ops)"
    by (simp add: cacheIds_def)
  then show ?thesis using cacheInv_all[of ops] move_to_front[of c ops] by simp
qed

theorem recency_cache_invariant_witness:
  "type_cmd \<lparr>id_cmd = ''x'', title = ''T'', highlightedTitle = None,
             type_cmd = TNote, group = ''notes''\<rparr> \<noteq> TCommandDynamic
   \<and> ''x'' \<in> set (cacheIds
        [Add \<lparr>id_cmd = ''x'', title = ''T'', highlightedTitle = None,
              type_cmd = TNote, group = ''notes''\<rparr>,
         Add \<lparr>id_cmd = ''y'', title = ''U'', highlightedTitle = None,
              type_cmd = TTag, group = ''tags''\<rparr>])
   \<and> cacheIds
        ([Add \<lparr>id_cmd = ''x'', title = ''T'', highlightedTitle = None,
               type_cmd = TNote, group = ''notes''\<rparr>,
          Add \<lparr>id_cmd = ''y'', title = ''U'', highlightedTitle = None,
               type_cmd = TTag, group = ''tags''\<rparr>]
         @ [Add \<lparr>id_cmd = ''x'', title = ''T'', highlightedTitle = None,
                   type_cmd = TNote, group = ''notes''\<rparr>])
     = [''x'', ''y'']"
proof -
  have ids: "cacheIds
        [Add \<lparr>id_cmd = ''x'', title = ''T'', highlightedTitle = None,
              type_cmd = TNote, group = ''notes''\<rparr>,
         Add \<lparr>id_cmd = ''y'', title = ''U'', highlightedTitle = None,
              type_cmd = TTag, group = ''tags''\<rparr>] = [''y'', ''x'']"
    by (simp add: cacheIds_def runOps_def addRecentCommand_def getRecentCommands_def
        Config_get_def Config_set_def recentKey_def splice1_def Let_def)
  show ?thesis
    using recency_cache_invariant
      [of "[Add \<lparr>id_cmd = ''x'', title = ''T'', highlightedTitle = None,
                  type_cmd = TNote, group = ''notes''\<rparr>,
            Add \<lparr>id_cmd = ''y'', title = ''U'', highlightedTitle = None,
                  type_cmd = TTag, group = ''tags''\<rparr>]"
          "\<lparr>id_cmd = ''x'', title = ''T'', highlightedTitle = None,
             type_cmd = TNote, group = ''notes''\<rparr>"]
    by (simp add: ids)
qed

section \<open>Properties of the navigation cursor and the key handler\<close>


lemma js_rem_nonneg:
  "0 \<le> a \<Longrightarrow> 0 < n \<Longrightarrow> js_rem (Num a) (Num n) = Num (a mod n)"
  by (cases "a = 0") simp_all

lemma at_index_in_range:
  "0 \<le> i \<Longrightarrow> i < int (length as) \<Longrightarrow> at_index as (Num i) = Some (as ! nat i)"
  by simp

text \<open>
  Claim C4. On a list of \<open>N > 0\<close> commands and a cursor on row \<open>row\<close> (with
  \<open>0 \<le> row < N\<close>) and column \<open>col\<close>, \<^verbatim>\<open>moveSelectionDown\<close> goes to row \<open>(row + 1) mod N\<close> and
  \<^verbatim>\<open>moveSelectionUp\<close> to row \<open>(row - 1 + N) mod N\<close>; the column stays \<open>col\<close> when the
  commands at the row left and at the row reached both have group \<^verbatim>\<open>"recent"\<close>, and is
  0 otherwise.
\<close>

theorem moveSelection_vertical:
  assumes "0 \<le> row" and "row < int (length commands)"
  shows "moveSelectionDown \<lparr>coord_x = col, coord_y = Num row\<rparr> commands =
           Inr \<lparr>coord_x =
                  (if group (commands ! nat row) = ''recent''
                      \<and> group (commands ! nat ((row + 1) mod int (length commands))) = ''recent''
                   then col else Num 0),
                coord_y = Num ((row + 1) mod int (length commands))\<rparr>
       \<and> moveSelectionUp \<lparr>coord_x = col, coord_y = Num row\<rparr> commands =
           Inr \<lparr>coord_x =
                  (if group (commands ! nat row) = ''recent''
                      \<and> group (commands ! nat ((row - 1 + int (length commands)) mod int (length commands))) = ''recent''
                   then col else Num 0),
                coord_y = Num ((row - 1 + int (length commands)) mod int (length commands))\<rparr>"
proof -
  let ?N = "int (length commands)"
  from assms have N: "0 < ?N" by linarith
  have cur: "at_index commands (Num row) = Some (commands ! nat row)"
    using assms by simp
  have dn: "js_rem (js_add (Num row) (Num 1)) (Num ?N) = Num ((row + 1) mod ?N)"
    using assms N by (simp only: js_add.simps js_rem_nonneg)
  have up: "js_rem (js_add (js_sub (Num row) (Num 1)) (Num ?N)) (Num ?N)
              = Num ((row - 1 + ?N) mod ?N)"
    using assms N by (simp only: js_add.simps js_sub.simps) (rule js_rem_nonneg, linarith+)
  have dn_ix: "at_index commands (Num ((row + 1) mod ?N))
                 = Some (commands ! nat ((row + 1) mod ?N))"
    using N by (intro at_index_in_range) simp_all
  have up_ix: "at_index commands (Num ((row - 1 + ?N) mod ?N))
                 = Some (commands ! nat ((row - 1 + ?N) mod ?N))"
    using N by (intro at_index_in_range) simp_all
  have "moveSelectionDown \<lparr>coord_x = col, coord_y = Num row\<rparr> commands =
           Inr \<lparr>coord_x =
                  (if group (commands ! nat row) = ''recent''
                      \<and> group (commands ! nat ((row + 1) mod ?N)) = ''recent''
                   then col else Num 0),
                coord_y = Num ((row + 1) mod ?N)\<rparr>"
    unfolding moveSelectionDown_def Let_def
    by (simp only: Coords.simps cur dn dn_ix option.case if_distrib split: if_split) simp
  moreover have "moveSelectionUp \<lparr>coord_x = col, coord_y = Num row\<rparr> commands =
           Inr \<lparr>coord_x =
                  (if group (commands ! nat row) = ''recent''
                      \<and> group (commands ! nat ((row - 1 + ?N) mod ?N)) = ''recent''
                   then col else Num 0),
                coord_y = Num ((row - 1 + ?N) mod ?N)\<rparr>"
    unfolding moveSelectionUp_def Let_def
    by (simp only: Coords.simps cur up up_ix option.case if_distrib split: if_split) simp
  ultimately show ?thesis by simp
qed

theorem moveSelection_vertical_witness:
  "(0::int) \<le> 1 \<and> 1 < int (length exampleCommands)
   \<and> moveSelectionDown \<lparr>coord_x = Num 1, coord_y = Num 1\<rparr> exampleCommands
       = Inr \<lparr>coord_x = Num 0, coord_y = Num 2\<rparr>
   \<and> moveSelectionUp \<lparr>coord_x = Num 1, coord_y = Num 1\<rparr> exampleCommands
       = Inr \<lparr>coord_x = Num 1, coord_y = Num 0\<rparr>"
  using moveSelection_vertical [of 1 exampleCommands "Num 1"]
  by (simp add: exampleCommands_def)

text \<open>
  Claim C9. When the command at the cursor's row has a group other than \<^verbatim>\<open>"recent"\<close>,
  \<^verbatim>\<open>moveSelectionRight\<close> and \<^verbatim>\<open>moveSelectionLeft\<close> return the cursor they were given.
\<close>

theorem moveSelection_horizontal_identity:
  assumes "at_index commands (coord_y selected) = Some currentCommand"
    and "group currentCommand \<noteq> ''recent''"
  shows "moveSelectionRight selected commands = Inr selected
       \<and> moveSelectionLeft selected commands = Inr selected"
  using assms by (simp add: moveSelectionRight_def moveSelectionLeft_def)


theorem moveSelection_horizontal_identity_witness:
  "at_index exampleCommands (coord_y \<lparr>coord_x = Num 0, coord_y = Num 2\<rparr>)
     = Some \<lparr>id_cmd = ''c'', title = ''C'', highlightedTitle = None, type_cmd = TNote, group = ''notes''\<rparr>
   \<and> group \<lparr>id_cmd = ''c'', title = ''C'', highlightedTitle = None, type_cmd = TNote, group = ''notes''\<rparr>
       \<noteq> ''recent''
   \<and> moveSelectionRight \<lparr>coord_x = Num 0, coord_y = Num 2\<rparr> exampleCommands
       = Inr \<lparr>coord_x = Num 0, coord_y = Num 2\<rparr>
   \<and> moveSelectionLeft \<lparr>coord_x = Num 0, coord_y = Num 2\<rparr> exampleCommands
       = Inr \<lparr>coord_x = Num 0, coord_y = Num 2\<rparr>"
  using moveSelection_horizontal_identity
    [of exampleCommands "\<lparr>coord_x = Num 0, coord_y = Num 2\<rparr>"
        "\<lparr>id_cmd = ''c'', title = ''C'', highlightedTitle = None, type_cmd = TNote, group = ''notes''\<rparr>"]
  by (simp add: exampleCommands_def)

text \<open>
  Claim C2. With an empty flattened list, \<^verbatim>\<open>Enter\<close> leaves the dialog as it is, but each
  of the four arrow keys throws a \<^verbatim>\<open>TypeError\<close>: the move functions read
  \<^verbatim>\<open>currentCommand.group\<close> of an \<^verbatim>\<open>undefined\<close> command.
\<close>

theorem onKeyDown_empty_list:
  "onKeyDown [] Enter emptyDialog = Inr emptyDialog
   \<and> onKeyDown [] ArrowDown emptyDialog = Inl TypeError
   \<and> onKeyDown [] ArrowUp emptyDialog = Inl TypeError
   \<and> onKeyDown [] ArrowRight emptyDialog = Inl TypeError
   \<and> onKeyDown [] ArrowLeft emptyDialog = Inl TypeError"
  by (simp add: onKeyDown_def emptyDialog_def moveSelectionDown_def moveSelectionUp_def
      moveSelectionRight_def moveSelectionLeft_def)

text \<open>
  What \<^verbatim>\<open>Enter\<close> does with the cursor in column 1 on a row holding a command: the store
  becomes \<^verbatim>\<open>removeRecentCommand\<close> of the command's identifier, the flattened list becomes a
  newly allocated array holding the entries with a different identifier while every
  array that existed keeps its content, the cursor goes to (0,0), \<^verbatim>\<open>props.onClose\<close> is not
  called and no action is invoked.
\<close>

lemma onKeyDown_enter_col1:
  assumes "at_index (arrays st (commands_ref st)) (coord_y (selected_st st)) = Some command"
    and "coord_x (selected_st st) = Num 1"
    and "commands_ref st < next_ref st"
  shows "\<exists>st'. onKeyDown COMMANDS Enter st = Inr st'
           \<and> config st' = removeRecentCommand (id_cmd command) (config st)
           \<and> (distinct (map id_cmd (getRecentCommands (config st)))
                \<longrightarrow> id_cmd command \<notin> set (map id_cmd (getRecentCommands (config st'))))
           \<and> arrays st' (commands_ref st')
               = filter (\<lambda>c. id_cmd c \<noteq> id_cmd command) (arrays st (commands_ref st))
           \<and> command \<notin> set (arrays st' (commands_ref st'))
           \<and> commands_ref st' \<noteq> commands_ref st
           \<and> (\<forall>r < next_ref st. arrays st' r = arrays st r)
           \<and> selected_st st' = \<lparr>coord_x = Num 0, coord_y = Num 0\<rparr>
           \<and> closed st' = closed st
           \<and> effects st' = effects st"
proof -
  let ?st' = "st\<lparr>selected_st := \<lparr>coord_x = Num 0, coord_y = Num 0\<rparr>,
                 config := removeRecentCommand (id_cmd command) (config st),
                 arrays := (arrays st)(next_ref st :=
                   filter (\<lambda>c. id_cmd c \<noteq> id_cmd command) (arrays st (commands_ref st))),
                 next_ref := Suc (next_ref st),
                 commands_ref := next_ref st\<rparr>"
  have run: "onKeyDown COMMANDS Enter st = Inr ?st'"
    using assms(1,2) by (simp add: onKeyDown_def array_filter_def)
  have gone: "distinct (map id_cmd (getRecentCommands (config st)))
       \<Longrightarrow> id_cmd command \<notin> set (map id_cmd (getRecentCommands (config ?st')))"
    by (simp add: ids_remove del: set_map)
  have "config ?st' = removeRecentCommand (id_cmd command) (config st)" by simp
  moreover have "arrays ?st' (commands_ref ?st')
      = filter (\<lambda>c. id_cmd c \<noteq> id_cmd command) (arrays st (commands_ref st))" by simp
  moreover have "command \<notin> set (arrays ?st' (commands_ref ?st'))" by simp
  moreover have "commands_ref ?st' \<noteq> commands_ref st" using assms(3) by simp
  moreover have "\<forall>r < next_ref st. arrays ?st' r = arrays st r" by simp
  moreover have "selected_st ?st' = \<lparr>coord_x = Num 0, coord_y = Num 0\<rparr>"
    "closed ?st' = closed st" "effects ?st' = effects st" by simp_all
  ultimately show ?thesis using run gone by blast
qed


text \<open>
  Claim C5. \<^verbatim>\<open>Enter\<close> in column 1 on a recent row is to remove that row's command from the
  recency cache and from the flattened list (as a new array), reset the cursor to (0,0)
  and not close the palette. On the list \<^verbatim>\<open>getDefaultCommands\<close> yields for a cached \<^verbatim>\<open>sync\<close>,
  with the cursor on the cached entry, the handler empties the cache, resets the cursor
  and does not close, but the new list has lost two rows: the cached entry of row 0 and
  the registry command \<^verbatim>\<open>sync\<close> of row 2, which has the same identifier and the group
  \<^verbatim>\<open>general\<close>. Only \<^verbatim>\<open>theme\<close> is left.
\<close>

theorem onKeyDown_enter_removes_twin:
  "arrays twinDialog (commands_ref twinDialog)
     = getDefaultCommands twinRegistry (config twinDialog)
   \<and> at_index (arrays twinDialog (commands_ref twinDialog)) (coord_y (selected_st twinDialog))
       = Some \<lparr>id_cmd = ''sync'', title = ''Sync'', highlightedTitle = None, type_cmd = TCommand,
               group = ''recent''\<rparr>
   \<and> coord_x (selected_st twinDialog) = Num 1
   \<and> at_index (arrays twinDialog (commands_ref twinDialog)) (Num 2)
       = Some \<lparr>id_cmd = ''sync'', title = ''Sync'', highlightedTitle = None, type_cmd = TCommand,
               group = ''general''\<rparr>
   \<and> (\<exists>st'. onKeyDown twinRegistry Enter twinDialog = Inr st'
          \<and> arrays st' (commands_ref st')
              = [\<lparr>id_cmd = ''theme'', title = ''Toggle theme'', highlightedTitle = None,
                  type_cmd = TCommand, group = ''general''\<rparr>]
          \<and> arrays st' (commands_ref st')
              \<noteq> [\<lparr>id_cmd = ''theme'', title = ''Toggle theme'', highlightedTitle = None,
                   type_cmd = TCommand, group = ''general''\<rparr>,
                  \<lparr>id_cmd = ''sync'', title = ''Sync'', highlightedTitle = None,
                   type_cmd = TCommand, group = ''general''\<rparr>]
          \<and> getRecentCommands (config st') = []
          \<and> arrays st' (commands_ref twinDialog) = twinCommands
          \<and> commands_ref st' \<noteq> commands_ref twinDialog
          \<and> selected_st st' = \<lparr>coord_x = Num 0, coord_y = Num 0\<rparr>
          \<and> closed st' = False
          \<and> effects st' = [])"
proof -
  let ?sync = "\<lparr>id_cmd = ''sync'', title = ''Sync'', highlightedTitle = None, type_cmd = TCommand,
                group = ''recent''\<rparr>"
  let ?theme = "\<lparr>id_cmd = ''theme'', title = ''Toggle theme'', highlightedTitle = None,
                 type_cmd = TCommand, group = ''general''\<rparr>"
  have opened: "arrays twinDialog (commands_ref twinDialog)
      = getDefaultCommands twinRegistry (config twinDialog)"
    by (simp add: twinDialog_def twinCommands_def twinRegistry_def getDefaultCommands_def
        getRecentCommands_def Config_get_def resolveCommands_def resolveStep_def)
  have h1: "at_index (arrays twinDialog (commands_ref twinDialog))
              (coord_y (selected_st twinDialog)) = Some ?sync"
    by (simp add: twinDialog_def twinCommands_def)
  have h2: "coord_x (selected_st twinDialog) = Num 1" by (simp add: twinDialog_def)
  have h3: "commands_ref twinDialog < next_ref twinDialog" by (simp add: twinDialog_def)
  have row2: "at_index (arrays twinDialog (commands_ref twinDialog)) (Num 2)
      = Some \<lparr>id_cmd = ''sync'', title = ''Sync'', highlightedTitle = None, type_cmd = TCommand,
              group = ''general''\<rparr>"
    by (simp add: twinDialog_def twinCommands_def)
  from onKeyDown_enter_col1 [OF h1 h2 h3, of twinRegistry] obtain st' where
    run: "onKeyDown twinRegistry Enter twinDialog = Inr st'"
    and cfg: "config st' = removeRecentCommand (id_cmd ?sync) (config twinDialog)"
    and arr: "arrays st' (commands_ref st')
               = filter (\<lambda>c. id_cmd c \<noteq> id_cmd ?sync)
                   (arrays twinDialog (commands_ref twinDialog))"
    and fresh: "commands_ref st' \<noteq> commands_ref twinDialog"
    and old: "\<forall>r < next_ref twinDialog. arrays st' r = arrays twinDialog r"
    and sel: "selected_st st' = \<lparr>coord_x = Num 0, coord_y = Num 0\<rparr>"
    and cl: "closed st' = closed twinDialog"
    and eff: "effects st' = effects twinDialog"
    by blast
  have a1: "arrays st' (commands_ref st') = [?theme]"
    unfolding arr by (simp add: twinDialog_def twinCommands_def)
  have a2: "arrays st' (commands_ref st')
      \<noteq> [?theme, \<lparr>id_cmd = ''sync'', title = ''Sync'', highlightedTitle = None,
                   type_cmd = TCommand, group = ''general''\<rparr>]"
    unfolding a1 by simp
  have a3: "getRecentCommands (config st') = []"
    unfolding cfg
    by (simp add: twinDialog_def twinCommands_def removeRecentCommand_def
        getRecentCommands_def Config_get_def Config_set_def splice1_def Let_def)
  have a4: "arrays st' (commands_ref twinDialog) = twinCommands"
    using old by (simp add: twinDialog_def)
  have a5: "closed st' = False" using cl by (simp add: twinDialog_def)
  have a6: "effects st' = []" using eff by (simp add: twinDialog_def)
  show ?thesis
    by (intro conjI exI[of _ st']) (rule opened h1 h2 row2 run a1 a2 a3 a4 fresh sel a5 a6)+
qed

section \<open>Properties of registry resolution and command search\<close>


lemma dedup_seen_set:
  "set seen = set seen' \<Longrightarrow> spec_dedupById seen es = spec_dedupById seen' es"
proof (induction es arbitrary: seen seen')
  case Nil
  show ?case by simp
next
  case (Cons e es)
  from Cons.prems have "set (id_reg e # seen) = set (id_reg e # seen')" by simp
  then have "spec_dedupById (id_reg e # seen) es = spec_dedupById (id_reg e # seen') es"
    by (rule Cons.IH)
  moreover have "spec_dedupById seen es = spec_dedupById seen' es"
    using Cons.prems by (rule Cons.IH)
  ultimately show ?case using Cons.prems by simp
qed

lemma find_id_iff:
  "(find (\<lambda>c. id_cmd c = i) acc \<noteq> None) = (i \<in> set (map id_cmd acc))"
  by (auto simp: find_None_iff)

lemma resolveStep_cases:
  "resolveStep acc e =
     (if id_reg e \<in> set (map id_cmd acc) \<or> \<not> spec_retained e then acc
      else acc @ [spec_toCommand e])"
proof (cases "id_reg e \<in> set (map id_cmd acc)")
  case True
  then show ?thesis by (simp only: resolveStep_def find_id_iff if_True simp_thms)
next
  case False
  then show ?thesis
    unfolding resolveStep_def find_id_iff
    by (cases "hidden e"; cases "group_reg e"; cases "title_reg e")
       (simp_all add: spec_retained_def spec_toCommand_def)
qed

lemma resolve_foldl:
  "foldl resolveStep acc es =
     acc @ map spec_toCommand (spec_dedupById (map id_cmd acc) (filter spec_retained es))"
proof (induction es arbitrary: acc)
  case Nil
  show ?case by simp
next
  case (Cons e es)
  show ?case
  proof (cases "id_reg e \<in> set (map id_cmd acc) \<or> \<not> spec_retained e")
    case True
    then have "resolveStep acc e = acc" by (simp only: resolveStep_cases if_True)
    with True Cons.IH[of acc] show ?thesis by auto
  next
    case False
    then have step: "resolveStep acc e = acc @ [spec_toCommand e]"
      by (simp only: resolveStep_cases if_False)
    have "set (map id_cmd (acc @ [spec_toCommand e])) = set (id_reg e # map id_cmd acc)"
      by (simp add: spec_toCommand_def)
    then have "spec_dedupById (map id_cmd (acc @ [spec_toCommand e])) (filter spec_retained es)
             = spec_dedupById (id_reg e # map id_cmd acc) (filter spec_retained es)"
      by (rule dedup_seen_set)
    with False step Cons.IH[of "acc @ [spec_toCommand e]"] show ?thesis by simp
  qed
qed

lemma resolveCommands_spec:
  "resolveCommands COMMANDS = map spec_toCommand (spec_dedupById [] (filter spec_retained COMMANDS))"
  by (simp add: resolveCommands_def resolve_foldl)

lemma dedup_distinct:
  "distinct (map id_reg es) \<Longrightarrow> set seen \<inter> set (map id_reg es) = {}
     \<Longrightarrow> spec_dedupById seen es = es"
  by (induction es arbitrary: seen) auto

lemma dedup_keeps_first:
  "id_reg e \<notin> set seen \<Longrightarrow> id_reg e \<notin> set (map id_reg xs)
     \<Longrightarrow> e \<in> set (spec_dedupById seen (xs @ e # ys))"
  by (induction xs arbitrary: seen) auto

text \<open>
  Claim C10. Only retained entries take part in the deduplication by identifier: an
  entry that is not excluded is part of the result whenever every earlier registry
  entry with its identifier is excluded (hidden, or without group or title).
\<close>

theorem resolveCommands_excluded_do_not_shadow:
  assumes "COMMANDS = pre @ e # post"
    and "spec_retained e"
    and "\<forall>p \<in> set pre. id_reg p = id_reg e \<longrightarrow> \<not> spec_retained p"
  shows "spec_toCommand e \<in> set (resolveCommands COMMANDS)"
proof -
  have "id_reg e \<notin> set (map id_reg (filter spec_retained pre))"
    using assms(3) by auto
  then have "e \<in> set (spec_dedupById [] (filter spec_retained pre @ e # filter spec_retained post))"
    by (intro dedup_keeps_first) simp_all
  then show ?thesis
    using assms(1,2) by (simp add: resolveCommands_spec)
qed

theorem resolveCommands_excluded_do_not_shadow_witness:
  "[\<lparr>id_reg = ''sync'', title_reg = Some ''Old sync'', group_reg = Some ''general'',
      hidden = Some True, dynamic = False, action = ''oldSync''\<rparr>,
    \<lparr>id_reg = ''sync'', title_reg = Some ''Sync'', group_reg = Some ''general'',
      hidden = None, dynamic = False, action = ''sync''\<rparr>]
   = [\<lparr>id_reg = ''sync'', title_reg = Some ''Old sync'', group_reg = Some ''general'',
        hidden = Some True, dynamic = False, action = ''oldSync''\<rparr>]
     @ \<lparr>id_reg = ''sync'', title_reg = Some ''Sync'', group_reg = Some ''general'',
         hidden = None, dynamic = False, action = ''sync''\<rparr> # []
   \<and> spec_retained \<lparr>id_reg = ''sync'', title_reg = Some ''Sync'', group_reg = Some ''general'',
         hidden = None, dynamic = False, action = ''sync''\<rparr>
   \<and> \<not> spec_retained \<lparr>id_reg = ''sync'', title_reg = Some ''Old sync'', group_reg = Some ''general'',
        hidden = Some True, dynamic = False, action = ''oldSync''\<rparr>
   \<and> \<lparr>id_cmd = ''sync'', title = ''Sync'', highlightedTitle = None, type_cmd = TCommand,
       group = ''general''\<rparr>
       \<in> set (resolveCommands
           [\<lparr>id_reg = ''sync'', title_reg = Some ''Old sync'', group_reg = Some ''general'',
              hidden = Some True, dynamic = False, action = ''oldSync''\<rparr>,
            \<lparr>id_reg = ''sync'', title_reg = Some ''Sync'', group_reg = Some ''general'',
              hidden = None, dynamic = False, action = ''sync''\<rparr>])"
  using resolveCommands_excluded_do_not_shadow
    [of "[\<lparr>id_reg = ''sync'', title_reg = Some ''Old sync'', group_reg = Some ''general'',
            hidden = Some True, dynamic = False, action = ''oldSync''\<rparr>,
          \<lparr>id_reg = ''sync'', title_reg = Some ''Sync'', group_reg = Some ''general'',
            hidden = None, dynamic = False, action = ''sync''\<rparr>]"
        "[\<lparr>id_reg = ''sync'', title_reg = Some ''Old sync'', group_reg = Some ''general'',
            hidden = Some True, dynamic = False, action = ''oldSync''\<rparr>]"
        "\<lparr>id_reg = ''sync'', title_reg = Some ''Sync'', group_reg = Some ''general'',
           hidden = None, dynamic = False, action = ''sync''\<rparr>"
        "[]"]
  by (simp add: spec_retained_def spec_toCommand_def)

text \<open>
  Claim C6, as the code has it. In command mode the candidates are the entries of the
  recency cache followed by the registry resolved into commands: the entries that are
  not hidden and have a group and a title, of which the first with each identifier is
  kept. An empty prepared query returns all of them in that order; for a registry of
  six entries of which five are retained, with different identifiers, these are the
  cached entries followed by exactly the five, in registry order.
\<close>

theorem commandSearch_candidates:
  "getDefaultCommands COMMANDS cfg
     = getRecentCommands cfg @ map spec_toCommand (spec_dedupById [] (filter spec_retained COMMANDS))
   \<and> commandSearch ranker COMMANDS cfg query = fuzzy ranker query (getDefaultCommands COMMANDS cfg)
   \<and> commandSearch ranker COMMANDS cfg [] = getDefaultCommands COMMANDS cfg
   \<and> (length COMMANDS = 6 \<and> length (filter spec_retained COMMANDS) = 5
        \<and> distinct (map id_reg (filter spec_retained COMMANDS))
      \<longrightarrow> commandSearch ranker COMMANDS cfg []
            = getRecentCommands cfg @ map spec_toCommand (filter spec_retained COMMANDS))"
  by (simp add: getDefaultCommands_def commandSearch_def fuzzy_def resolveCommands_spec
      dedup_distinct)

theorem commandSearch_candidates_witness:
  "length exampleRegistry = 6 \<and> length (filter spec_retained exampleRegistry) = 5
   \<and> distinct (map id_reg (filter spec_retained exampleRegistry))
   \<and> getRecentCommands Map.empty = []
   \<and> map id_cmd (commandSearch (\<lambda>q items. items) exampleRegistry Map.empty [])
       = [''theme'', ''sync'', ''new-note'', ''new-tag'', ''settings'']"
proof -
  have len: "length exampleRegistry = 6" by (simp add: exampleRegistry_def)
  have kept: "filter spec_retained exampleRegistry
      = [exampleRegistry ! 0, exampleRegistry ! 1, exampleRegistry ! 3,
         exampleRegistry ! 4, exampleRegistry ! 5]"
    by (simp add: exampleRegistry_def spec_retained_def)
  have five: "length (filter spec_retained exampleRegistry) = 5"
    by (simp only: kept) simp
  have dist: "distinct (map id_reg (filter spec_retained exampleRegistry))"
    by (simp only: kept) (simp add: exampleRegistry_def)
  have none: "getRecentCommands Map.empty = []"
    by (simp add: getRecentCommands_def Config_get_def)
  from commandSearch_candidates [of exampleRegistry Map.empty "\<lambda>q items. items" "[]"]
    len five dist
  have "commandSearch (\<lambda>q items. items) exampleRegistry Map.empty []
        = getRecentCommands Map.empty @ map spec_toCommand (filter spec_retained exampleRegistry)"
    by blast
  then have "map id_cmd (commandSearch (\<lambda>q items. items) exampleRegistry Map.empty [])
       = [''theme'', ''sync'', ''new-note'', ''new-tag'', ''settings'']"
    by (simp only: none kept) (simp add: exampleRegistry_def spec_toCommand_def)
  with len five dist none show ?thesis by simp
qed

text \<open>
  The claim as the spec states it fails once the recency cache is not empty: the cached
  entries are returned in front of the five visible registry entries.
\<close>

theorem commandSearch_only_registry_counterexample:
  "length exampleRegistry = 6 \<and> length (filter spec_retained exampleRegistry) = 5
   \<and> length (filter (\<lambda>e. hidden e = Some True) exampleRegistry) = 1
   \<and> map id_cmd (commandSearch (\<lambda>q items. items) exampleRegistry
                    [recentKey \<mapsto> take 2 exampleCommands] [])
       = [''a'', ''b'', ''theme'', ''sync'', ''new-note'', ''new-tag'', ''settings'']
   \<and> commandSearch (\<lambda>q items. items) exampleRegistry [recentKey \<mapsto> take 2 exampleCommands] []
       \<noteq> map spec_toCommand (filter spec_retained exampleRegistry)"
proof -
  let ?out = "commandSearch (\<lambda>q items. items) exampleRegistry
                [recentKey \<mapsto> take 2 exampleCommands] []"
  have kept: "filter spec_retained exampleRegistry
      = [exampleRegistry ! 0, exampleRegistry ! 1, exampleRegistry ! 3,
         exampleRegistry ! 4, exampleRegistry ! 5]"
    by (simp add: exampleRegistry_def spec_retained_def)
  have recent: "getRecentCommands [recentKey \<mapsto> take 2 exampleCommands] = take 2 exampleCommands"
    by (simp add: getRecentCommands_def Config_get_def)
  have out: "?out = take 2 exampleCommands @ map spec_toCommand (filter spec_retained exampleRegistry)"
    by (simp add: commandSearch_def fuzzy_def getDefaultCommands_def resolveCommands_spec
        recent dedup_distinct kept exampleRegistry_def)
  have ids: "map id_cmd ?out
       = [''a'', ''b'', ''theme'', ''sync'', ''new-note'', ''new-tag'', ''settings'']"
    by (simp only: out kept) (simp add: exampleRegistry_def exampleCommands_def spec_toCommand_def)
  have len: "length exampleRegistry = 6" by (simp add: exampleRegistry_def)
  have five: "length (filter spec_retained exampleRegistry) = 5"
    by (simp only: kept) simp
  have one: "length (filter (\<lambda>e. hidden e = Some True) exampleRegistry) = 1"
    by (simp add: exampleRegistry_def)
  have "length ?out = 7" by (simp only: out length_append length_map five) (simp add: exampleCommands_def)
  with five have "length ?out \<noteq> length (map spec_toCommand (filter spec_retained exampleRegistry))"
    by simp
  then have "?out \<noteq> map spec_toCommand (filter spec_retained exampleRegistry)"
    by (rule contrapos_nn) (erule arg_cong)
  with len five one ids show ?thesis by simp
qed

section \<open>Properties of query classification\<close>


lemma rev_dropWhile_split:
  "xs = rev (dropWhile P (rev xs)) @ rev (takeWhile P (rev xs))"
  by (metis rev_append rev_rev_ident takeWhile_dropWhile_id)

lemma trim_suffix:
  "dropWhile isWhiteSpace s
     = trim s @ rev (takeWhile isWhiteSpace (rev (dropWhile isWhiteSpace s)))"
  unfolding trim_def by (rule rev_dropWhile_split)

lemma trim_decompose:
  "\<exists>pre post. s = pre @ trim s @ post \<and> list_all isWhiteSpace pre \<and> list_all isWhiteSpace post"
proof -
  let ?t = "dropWhile isWhiteSpace s"
  have "s = takeWhile isWhiteSpace s @ ?t" by simp
  then have "s = takeWhile isWhiteSpace s @ trim s @ rev (takeWhile isWhiteSpace (rev ?t))"
    using trim_suffix[of s] by simp
  moreover have "list_all isWhiteSpace (takeWhile isWhiteSpace s)"
    by (auto simp: list_all_iff dest: set_takeWhileD)
  moreover have "list_all isWhiteSpace (rev (takeWhile isWhiteSpace (rev ?t)))"
    by (auto simp: list_all_iff dest: set_takeWhileD)
  ultimately show ?thesis by blast
qed

lemma trim_ends:
  assumes "trim s \<noteq> []"
  shows "\<not> isWhiteSpace (hd (trim s)) \<and> \<not> isWhiteSpace (last (trim s))"
proof -
  let ?t = "dropWhile isWhiteSpace s"
  let ?u = "dropWhile isWhiteSpace (rev ?t)"
  from assms have u: "?u \<noteq> []" by (simp add: trim_def)
  have t: "?t \<noteq> []"
  proof
    assume e: "?t = []"
    have "?u = []" by (simp only: e rev.simps dropWhile.simps)
    with u show False by (rule notE)
  qed
  have "\<not> isWhiteSpace (hd ?u)" using u by (rule hd_dropWhile)
  then have l: "\<not> isWhiteSpace (last (trim s))"
    using u by (simp add: trim_def last_rev)
  have "hd ?t = hd (trim s)" using assms trim_suffix[of s] by (metis hd_append2)
  moreover have "\<not> isWhiteSpace (hd ?t)" using t by (rule hd_dropWhile)
  ultimately show ?thesis using l by simp
qed

lemma prepareQuery_strip: "prepareQuery raw = trim (spec_stripSentinel raw)"
  by (cases raw) (simp_all add: prepareQuery_def isCommandMode_def spec_stripSentinel_def)

text \<open>
  Claim C7. A query is in command mode exactly when it starts with \<^verbatim>\<open>>\<close>. The prepared
  query is the raw query without one leading \<^verbatim>\<open>>\<close> (if there is one), trimmed: only
  whitespace is cut off in front and behind, and what remains neither starts nor ends
  with whitespace. Both functions are total, so classification has no failure.
\<close>

theorem classify_query:
  "(isCommandMode raw \<longleftrightarrow> (\<exists>rest. raw = 0x3E # rest))
   \<and> prepareQuery (0x3E # rest) = trim rest
   \<and> (\<not> isCommandMode raw \<longrightarrow> prepareQuery raw = trim raw)
   \<and> prepareQuery raw = trim (spec_stripSentinel raw)
   \<and> (\<exists>pre post. spec_stripSentinel raw = pre @ prepareQuery raw @ post
          \<and> list_all isWhiteSpace pre \<and> list_all isWhiteSpace post)
   \<and> (prepareQuery raw \<noteq> []
        \<longrightarrow> \<not> isWhiteSpace (hd (prepareQuery raw)) \<and> \<not> isWhiteSpace (last (prepareQuery raw)))"
proof -
  have "isCommandMode raw \<longleftrightarrow> (\<exists>rest. raw = 0x3E # rest)"
    by (cases raw) (simp_all add: isCommandMode_def)
  moreover have "prepareQuery (0x3E # rest) = trim rest"
    by (simp add: prepareQuery_def isCommandMode_def)
  moreover have "\<not> isCommandMode raw \<longrightarrow> prepareQuery raw = trim raw"
    by (simp add: prepareQuery_def)
  moreover have "\<exists>pre post. spec_stripSentinel raw = pre @ prepareQuery raw @ post
          \<and> list_all isWhiteSpace pre \<and> list_all isWhiteSpace post"
    unfolding prepareQuery_strip by (rule trim_decompose)
  moreover have "prepareQuery raw \<noteq> []
        \<longrightarrow> \<not> isWhiteSpace (hd (prepareQuery raw)) \<and> \<not> isWhiteSpace (last (prepareQuery raw))"
    unfolding prepareQuery_strip using trim_ends by blast
  ultimately show ?thesis using prepareQuery_strip by blast
qed

text \<open>
  The query made of \<^verbatim>\<open>>\<close>, a space, a tab, \<^verbatim>\<open>>a\<close> and a space is in command mode and its
  prepared form is \<^verbatim>\<open>>a\<close>: one sentinel is stripped, the second stays. The query
  \<^verbatim>\<open>" a"\<close> is in search mode.
\<close>

theorem classify_query_witness:
  "isCommandMode [0x3E, 0x20, 0x09, 0x3E, 0x61, 0x20]
   \<and> prepareQuery [0x3E, 0x20, 0x09, 0x3E, 0x61, 0x20] = [0x3E, 0x61]
   \<and> prepareQuery [0x3E, 0x20, 0x09, 0x3E, 0x61, 0x20] \<noteq> []
   \<and> \<not> isWhiteSpace (hd (prepareQuery [0x3E, 0x20, 0x09, 0x3E, 0x61, 0x20]))
   \<and> \<not> isWhiteSpace (last (prepareQuery [0x3E, 0x20, 0x09, 0x3E, 0x61, 0x20]))
   \<and> \<not> isCommandMode [0x20, 0x61]
   \<and> prepareQuery [0x20, 0x61] = [0x61]"
proof -
  let ?raw = "[0x3E, 0x20, 0x09, 0x3E, 0x61, 0x20] :: jsstring"
  have p: "prepareQuery ?raw = [0x3E, 0x61]"
    by (simp add: prepareQuery_def isCommandMode_def trim_def isWhiteSpace_def)
  then have ne: "prepareQuery ?raw \<noteq> []" by simp
  have n: "\<not> isCommandMode [0x20, 0x61]" by (simp add: isCommandMode_def)
  have q: "trim [0x20, 0x61] = [0x61]" by (simp add: trim_def isWhiteSpace_def)
  from classify_query [of "[0x20, 0x61]" "[]"] n
  have "prepareQuery [0x20, 0x61] = trim [0x20, 0x61]" by blast
  then have s: "prepareQuery [0x20, 0x61] = [0x61]" by (simp only: q)
  from classify_query [of ?raw "[0x20, 0x09, 0x3E, 0x61, 0x20]"] ne
  have c: "isCommandMode ?raw"
    and e: "\<not> isWhiteSpace (hd (prepareQuery ?raw)) \<and> \<not> isWhiteSpace (last (prepareQuery ?raw))"
    by blast+
  show ?thesis
    by (intro conjI) (rule c p ne n s e[THEN conjunct1] e[THEN conjunct2])+
qed

section \<open>Properties of grouping and sorting\<close>


lemma findIndex_none: "(findIndex P as = -1) = (\<forall>a \<in> set as. \<not> P a)"
proof (induction as)
  case Nil
  show ?case by simp
next
  case (Cons a as)
  have "- 1 \<le> findIndex P as" by (rule findIndex_ge)
  then have "findIndex P as + 1 \<noteq> - 1" by linarith
  with Cons show ?case by (simp add: Let_def)
qed

lemma findIndex_found:
  "findIndex P as \<noteq> -1 \<Longrightarrow>
     0 \<le> findIndex P as \<and> nat (findIndex P as) < length as \<and> P (as ! nat (findIndex P as))"
proof (induction as)
  case Nil
  then show ?case by simp
next
  case (Cons a as)
  show ?case
  proof (cases "P a")
    case True
    then show ?thesis by simp
  next
    case False
    with Cons.prems have ne: "findIndex P as \<noteq> -1" by (simp add: Let_def split: if_splits)
    from Cons.IH[OF ne] have ih: "0 \<le> findIndex P as" "nat (findIndex P as) < length as"
      "P (as ! nat (findIndex P as))" by simp_all
    from ih(1) have "nat (findIndex P as + 1) = Suc (nat (findIndex P as))" by simp
    with False ne ih show ?thesis by (simp add: Let_def)
  qed
qed

lemma findIndexGroup_total:
  "list_all uniformBucket bs \<Longrightarrow>
     findIndexGroup g bs = Inr (findIndex (\<lambda>b. bucketLabel b = g) bs)"
proof (induction bs)
  case Nil
  show ?case by simp
next
  case (Cons b bs)
  then obtain c0 cs where b: "b = c0 # cs" by (cases b) (simp_all add: uniformBucket_def)
  from Cons have "findIndexGroup g bs = Inr (findIndex (\<lambda>b. bucketLabel b = g) bs)" by simp
  with b show ?case by (simp add: bucketLabel_def Let_def)
qed

lemma uniformBucket_snoc:
  "uniformBucket b \<Longrightarrow> group c = bucketLabel b \<Longrightarrow>
     uniformBucket (b @ [c]) \<and> bucketLabel (b @ [c]) = bucketLabel b"
  by (cases b) (simp_all add: uniformBucket_def bucketLabel_def)

lemma uniformBucket_single:
  "group c \<noteq> ''recent'' \<Longrightarrow> uniformBucket [c] \<and> bucketLabel [c] = group c"
  by (simp add: uniformBucket_def bucketLabel_def)

lemma sortStep_inv:
  assumes "sortInv s"
  shows "\<exists>s'. sortStep s c = Inr s' \<and> sortInv s'"
proof -
  obtain r bs where s: "s = (r, bs)" by (cases s)
  from assms s have r: "list_all (\<lambda>c. group c = ''recent'') r"
    and u: "list_all uniformBucket bs" and d: "distinct (map bucketLabel bs)"
    by (simp_all add: sortInv_def)
  let ?i = "findIndex (\<lambda>b. bucketLabel b = group c) bs"
  have fi: "findIndexGroup (group c) bs = Inr ?i" using u by (rule findIndexGroup_total)
  show ?thesis
  proof (cases "group c = ''recent''")
    case True
    with r u d s show ?thesis by (simp add: sortStep_def sortInv_def)
  next
    case nr: False
    show ?thesis
    proof (cases "?i = -1")
      case True
      then have "group c \<notin> set (map bucketLabel bs)" by (auto simp: findIndex_none)
      with True nr r u d s fi uniformBucket_single[OF nr] show ?thesis
        by (simp add: sortStep_def sortInv_def)
    next
      case False
      from findIndex_found[OF False] have i: "nat ?i < length bs"
        and lab: "bucketLabel (bs ! nat ?i) = group c" by simp_all
      from u i have "uniformBucket (bs ! nat ?i)" by (simp add: list_all_length)
      from uniformBucket_snoc[OF this lab[symmetric]]
      have u': "uniformBucket (bs ! nat ?i @ [c])"
        and l': "bucketLabel (bs ! nat ?i @ [c]) = bucketLabel (bs ! nat ?i)" by simp_all
      have "map bucketLabel (bs[nat ?i := bs ! nat ?i @ [c]]) = map bucketLabel bs"
        using i l' by (simp add: map_update list_update_same_conv)
      moreover have "list_all uniformBucket (bs[nat ?i := bs ! nat ?i @ [c]])"
        using u u' by (auto simp: list_all_iff dest: set_update_subset_insert[THEN subsetD])
      ultimately show ?thesis using False nr r d s fi
        by (simp add: sortStep_def sortInv_def)
    qed
  qed
qed

lemma sortLoop_inv:
  "sortInv s \<Longrightarrow> \<exists>s'. sortLoop s cs = Inr s' \<and> sortInv s'"
proof (induction cs arbitrary: s)
  case Nil
  then show ?case by simp
next
  case (Cons c cs)
  from sortStep_inv[OF Cons.prems, of c] obtain s1 where
    s1: "sortStep s c = Inr s1" "sortInv s1" by blast
  from Cons.IH[OF s1(2)] s1(1) show ?case by simp
qed

lemma sortCommands_shape:
  "\<exists>r bs. sortCommands commands = Inr (r @ concat bs) \<and> sortInv (r, bs)"
proof -
  have "sortInv ([], [])" by (simp add: sortInv_def)
  from sortLoop_inv[OF this, of commands] obtain s' where
    s': "sortLoop ([], []) commands = Inr s'" "sortInv s'" by blast
  obtain r bs where "s' = (r, bs)" by (cases s')
  with s' show ?thesis by (auto simp: sortCommands_def)
qed


lemma find_label_none:
  "g \<notin> set (map group_gc acc) \<Longrightarrow> find (\<lambda>p. group_gc p = g) acc = None"
  by (induction acc) auto

lemma find_label_last:
  "g \<notin> set (map group_gc pre) \<Longrightarrow>
     find (\<lambda>p. group_gc p = g) (pre @ [\<lparr>group_gc = g, count = k\<rparr>])
       = Some \<lparr>group_gc = g, count = k\<rparr>"
  by (induction pre) auto

lemma incrementFound_last:
  "g \<notin> set (map group_gc pre) \<Longrightarrow>
     incrementFound g (pre @ [\<lparr>group_gc = g, count = k\<rparr>])
       = pre @ [\<lparr>group_gc = g, count = Suc k\<rparr>]"
  by (induction pre) auto

lemma groupedStep_new:
  "group c \<notin> set (map group_gc acc) \<Longrightarrow>
     groupedStep acc c = acc @ [\<lparr>group_gc = group c, count = 1\<rparr>]"
  by (simp add: groupedStep_def find_label_none)

lemma groupedStep_last:
  "group c = g \<Longrightarrow> g \<notin> set (map group_gc pre) \<Longrightarrow>
     groupedStep (pre @ [\<lparr>group_gc = g, count = k\<rparr>]) c
       = pre @ [\<lparr>group_gc = g, count = Suc k\<rparr>]"
  by (simp add: groupedStep_def find_label_last incrementFound_last)

lemma grouped_run:
  "list_all (\<lambda>c. group c = g) cs \<Longrightarrow> g \<notin> set (map group_gc pre) \<Longrightarrow>
     foldl groupedStep (pre @ [\<lparr>group_gc = g, count = k\<rparr>]) cs
       = pre @ [\<lparr>group_gc = g, count = k + length cs\<rparr>]"
proof (induction cs arbitrary: k)
  case Nil
  show ?case by simp
next
  case (Cons c cs)
  then have "groupedStep (pre @ [\<lparr>group_gc = g, count = k\<rparr>]) c
       = pre @ [\<lparr>group_gc = g, count = Suc k\<rparr>]"
    by (intro groupedStep_last) simp_all
  with Cons.IH[of "Suc k"] Cons.prems show ?case by simp
qed

lemma grouped_block:
  assumes "cs \<noteq> []" "list_all (\<lambda>c. group c = g) cs" "g \<notin> set (map group_gc acc)"
  shows "foldl groupedStep acc cs = acc @ [\<lparr>group_gc = g, count = length cs\<rparr>]"
proof -
  from assms(1) obtain c cs' where cs: "cs = c # cs'" by (cases cs) auto
  with assms(2) have g: "group c = g" and rest: "list_all (\<lambda>c. group c = g) cs'" by simp_all
  from g assms(3) have "groupedStep acc c = acc @ [\<lparr>group_gc = g, count = 1\<rparr>]"
    using groupedStep_new[of c acc] by simp
  with grouped_run[OF rest assms(3), of 1] cs show ?thesis by simp
qed

lemma uniformBucket_all:
  "uniformBucket b \<Longrightarrow> b \<noteq> [] \<and> list_all (\<lambda>c. group c = bucketLabel b) b
     \<and> bucketLabel b \<noteq> ''recent''"
  by (cases b) (simp_all add: uniformBucket_def bucketLabel_def)

lemma grouped_buckets:
  "list_all uniformBucket bs \<Longrightarrow> distinct (map bucketLabel bs) \<Longrightarrow>
   set (map bucketLabel bs) \<inter> set (map group_gc acc) = {} \<Longrightarrow>
     foldl groupedStep acc (concat bs)
       = acc @ map (\<lambda>b. \<lparr>group_gc = bucketLabel b, count = length b\<rparr>) bs"
proof (induction bs arbitrary: acc)
  case Nil
  show ?case by simp
next
  case (Cons b bs)
  from Cons.prems(1) have ub: "uniformBucket b" and ubs: "list_all uniformBucket bs" by simp_all
  from uniformBucket_all[OF ub] have ne: "b \<noteq> []"
    and all: "list_all (\<lambda>c. group c = bucketLabel b) b" by simp_all
  from Cons.prems(3) have fresh: "bucketLabel b \<notin> set (map group_gc acc)" by auto
  have blk: "foldl groupedStep acc b = acc @ [\<lparr>group_gc = bucketLabel b, count = length b\<rparr>]"
    using ne all fresh by (rule grouped_block)
  have d: "distinct (map bucketLabel bs)" using Cons.prems(2) by simp
  have disj: "set (map bucketLabel bs)
      \<inter> set (map group_gc (acc @ [\<lparr>group_gc = bucketLabel b, count = length b\<rparr>])) = {}"
    using Cons.prems(2,3) by auto
  from Cons.IH[OF ubs d disj] blk show ?case by simp
qed

lemma grouped_state:
  assumes "sortInv (r, bs)"
  shows "grouped (r @ concat bs) = stateSummary (r, bs)"
proof -
  from assms have rr: "list_all (\<lambda>c. group c = ''recent'') r"
    and u: "list_all uniformBucket bs" and d: "distinct (map bucketLabel bs)"
    by (simp_all add: sortInv_def)
  have nr: "''recent'' \<notin> set (map bucketLabel bs)"
    using u uniformBucket_all by (fastforce simp: list_all_iff)
  let ?a = "if r = [] then [] else [\<lparr>group_gc = ''recent'', count = length r\<rparr>]"
  have a: "foldl groupedStep [] r = ?a"
    using grouped_block[of r "''recent''" "[]"] rr by simp
  have "set (map bucketLabel bs) \<inter> set (map group_gc ?a) = {}" using nr by simp
  from grouped_buckets[OF u d this] a show ?thesis
    by (simp add: grouped_def stateSummary_def)
qed


lemma replay_length: "sum_list (map count ps) = length (spec_replay ps)"
  by (induction ps) (simp_all add: spec_replay_def)

lemma runLengths_head:
  "gs \<noteq> [] \<Longrightarrow> spec_runLengths gs \<noteq> [] \<and> group_gc (hd (spec_runLengths gs)) = hd gs"
  by (cases gs) (auto split: list.splits)

lemma runLengths_run:
  assumes "gs = [] \<or> hd gs \<noteq> g"
  shows "spec_runLengths (replicate (Suc n) g @ gs)
           = \<lparr>group_gc = g, count = Suc n\<rparr> # spec_runLengths gs"
proof (induction n)
  case 0
  show ?case
  proof (cases "gs = []")
    case True
    then show ?thesis by simp
  next
    case False
    with assms runLengths_head[of gs] have "spec_runLengths gs \<noteq> []"
      and "group_gc (hd (spec_runLengths gs)) \<noteq> g" by simp_all
    then show ?thesis by (cases "spec_runLengths gs") simp_all
  qed
next
  case (Suc n)
  have "spec_runLengths (replicate (Suc (Suc n)) g @ gs)
          = spec_runLengths (g # (replicate (Suc n) g @ gs))" by simp
  also have "\<dots> = \<lparr>group_gc = g, count = Suc (Suc n)\<rparr> # spec_runLengths gs"
    by (simp only: spec_runLengths.simps Suc) simp
  finally show ?case .
qed

lemma replay_head:
  "list_all (\<lambda>p. 0 < count p) ps \<Longrightarrow> ps \<noteq> [] \<Longrightarrow>
     spec_replay ps \<noteq> [] \<and> hd (spec_replay ps) = group_gc (hd ps)"
  by (cases ps) (auto simp: spec_replay_def gr0_conv_Suc)

lemma runLengths_replay:
  "list_all (\<lambda>p. 0 < count p) ps \<Longrightarrow> distinct (map group_gc ps) \<Longrightarrow>
     spec_runLengths (spec_replay ps) = ps"
proof (induction ps)
  case Nil
  show ?case by (simp add: spec_replay_def)
next
  case (Cons p ps)
  from Cons.prems obtain n where n: "count p = Suc n" by (auto simp: gr0_conv_Suc)
  have ih: "spec_runLengths (spec_replay ps) = ps" using Cons by simp
  have sep: "spec_replay ps = [] \<or> hd (spec_replay ps) \<noteq> group_gc p"
  proof (cases ps)
    case Nil
    then show ?thesis by (simp add: spec_replay_def)
  next
    case (Cons q qs)
    with Cons.prems replay_head[of ps] have "hd (spec_replay ps) = group_gc q" by simp
    moreover from Cons Cons.prems(2) have "group_gc q \<noteq> group_gc p" by auto
    ultimately show ?thesis by simp
  qed
  have "spec_replay (p # ps) = replicate (Suc n) (group_gc p) @ spec_replay ps"
    using n by (simp add: spec_replay_def)
  then have "spec_runLengths (spec_replay (p # ps))
      = \<lparr>group_gc = group_gc p, count = Suc n\<rparr> # spec_runLengths (spec_replay ps)"
    using runLengths_run[OF sep, of n] by simp
  with ih n show ?case by simp
qed

lemma bucket_labels: "uniformBucket b \<Longrightarrow> map group b = replicate (length b) (bucketLabel b)"
proof -
  assume "uniformBucket b"
  from uniformBucket_all[OF this] have "list_all (\<lambda>c. group c = bucketLabel b) b" by simp
  then have "\<forall>x \<in> set (map group b). x = bucketLabel b" by (auto simp: list_all_iff)
  then show ?thesis using replicate_length_same[of "map group b" "bucketLabel b"] by simp
qed

lemma replay_buckets:
  "list_all uniformBucket bs \<Longrightarrow>
     spec_replay (map (\<lambda>b. \<lparr>group_gc = bucketLabel b, count = length b\<rparr>) bs)
       = map group (concat bs)"
  by (induction bs) (simp_all add: spec_replay_def bucket_labels)

lemma replay_state:
  assumes "sortInv (r, bs)"
  shows "spec_replay (stateSummary (r, bs)) = map group (r @ concat bs)"
proof -
  from assms have rr: "list_all (\<lambda>c. group c = ''recent'') r"
    and u: "list_all uniformBucket bs" by (simp_all add: sortInv_def)
  from rr have "\<forall>x \<in> set (map group r). x = ''recent''" by (auto simp: list_all_iff)
  then have "replicate (length r) ''recent'' = map group r"
    using replicate_length_same[of "map group r" "''recent''"] by simp
  then have "spec_replay (if r = [] then [] else [\<lparr>group_gc = ''recent'', count = length r\<rparr>])
      = map group r" by (simp add: spec_replay_def)
  moreover have "spec_replay (xs @ ys) = spec_replay xs @ spec_replay ys" for xs ys
    by (simp add: spec_replay_def)
  ultimately show ?thesis using replay_buckets[OF u] by (simp add: stateSummary_def)
qed

lemma summary_wellformed:
  assumes "sortInv (r, bs)"
  shows "list_all (\<lambda>p. 0 < count p) (stateSummary (r, bs))
       \<and> distinct (map group_gc (stateSummary (r, bs)))"
proof -
  from assms have u: "list_all uniformBucket bs" and d: "distinct (map bucketLabel bs)"
    by (simp_all add: sortInv_def)
  have nr: "''recent'' \<notin> set (map bucketLabel bs)"
    using u uniformBucket_all by (fastforce simp: list_all_iff)
  have pos: "list_all (\<lambda>b. 0 < length b) bs"
    using u uniformBucket_all by (fastforce simp: list_all_iff)
  have labels: "map group_gc (map (\<lambda>b. \<lparr>group_gc = bucketLabel b, count = length b\<rparr>) bs)
      = map bucketLabel bs" by (simp add: comp_def)
  have "list_all (\<lambda>p. 0 < count p) (map (\<lambda>b. \<lparr>group_gc = bucketLabel b, count = length b\<rparr>) bs)"
    using pos by (simp add: list_all_iff)
  then show ?thesis using nr d labels by (simp add: stateSummary_def comp_def)
qed

text \<open>
  Claim C3. \<^verbatim>\<open>sortCommands\<close> returns a list for every input, and the summary \<^verbatim>\<open>grouped\<close>
  derives from that list is the run-length encoding of its group labels: the counts
  add up to the length of the list, and replaying the summary gives the group label
  of every entry, in order.
\<close>

theorem grouped_is_run_length_encoding:
  "\<exists>flat. sortCommands commands = Inr flat
     \<and> sum_list (map count (grouped flat)) = length flat
     \<and> spec_replay (grouped flat) = map group flat
     \<and> grouped flat = spec_runLengths (map group flat)"
proof -
  from sortCommands_shape[of commands] obtain r bs where
    run: "sortCommands commands = Inr (r @ concat bs)" and inv: "sortInv (r, bs)" by blast
  let ?flat = "r @ concat bs"
  have g: "grouped ?flat = stateSummary (r, bs)" using inv by (rule grouped_state)
  have rp: "spec_replay (grouped ?flat) = map group ?flat"
    unfolding g using inv by (rule replay_state)
  have "sum_list (map count (grouped ?flat)) = length (spec_replay (grouped ?flat))"
    by (rule replay_length)
  then have sm: "sum_list (map count (grouped ?flat)) = length ?flat"
    by (simp only: rp length_map)
  have "spec_runLengths (spec_replay (grouped ?flat)) = grouped ?flat"
    unfolding g using summary_wellformed[OF inv] by (intro runLengths_replay) simp_all
  then have rl: "grouped ?flat = spec_runLengths (map group ?flat)"
    by (simp only: rp)
  from run sm rp rl show ?thesis by blast
qed

end
